theory Spec2Isabelle
  imports Complex_Main "HOL-Library.Monad_Syntax"
begin

section \<open>JavaScript numbers\<close>

text \<open>
  The component computes with JavaScript \<open>number\<close>s, which are doubles. The motion
  controller is modelled over the real numbers: the finite doubles, without rounding and
  without overflow. On finite operands only two operations of the source can leave
  the finite numbers: \<open>n % d\<close> and \<open>n / d\<close> with \<open>d = 0\<close> (NaN or an infinity). Both
  are partial here, \<open>None\<close> standing for the non-finite result, and every function that
  uses them returns an option, so that a run of the model that ever divides by zero
  ends in \<open>None\<close>. Division by the non-zero literals \<open>1000\<close> and \<open>SMOOTH_TAU\<close> is
  written with \<open>/\<close>. The sign of a zero is not modelled. Rounding, overflow and the
  non-finite values are the subject of the next section.
\<close>

type_synonym number = real

definition js_trunc :: "real \<Rightarrow> int" where
  "js_trunc x = (if x < 0 then \<lceil>x\<rceil> else \<lfloor>x\<rfloor>)"

text \<open>\<open>n % d\<close> on finite operands: the remainder of the division truncated towards
  zero; it has the sign of the dividend.\<close>

definition js_rem :: "number \<Rightarrow> number \<Rightarrow> number option" where
  "js_rem n d = (if d = 0 then None else Some (n - d * of_int (js_trunc (n / d))))"

definition js_div :: "number \<Rightarrow> number \<Rightarrow> number option" where
  "js_div n d = (if d = 0 then None else Some (n / d))"

text \<open>The expression \<open>((x % w) + w) % w\<close> of lines 117 and 143.\<close>

definition wrap :: "number \<Rightarrow> number \<Rightarrow> number option" where
  "wrap x w = do { r \<leftarrow> js_rem x w; js_rem (r + w) w }"

section \<open>Doubles\<close>

text \<open>
  Two computations of the component depend on what the reals leave out: the quotient of
  the layout recomputation, which is rounded before its ceiling is taken (line 235), and
  the offset update, whose product and sums can overflow (lines 117, 142 and 143). For
  these the operations are modelled on doubles: a finite number, one of the two
  infinities, or NaN.

  \<open>nearest\<close> rounds a real to the nearest double: a number \<open>x\<close> with
  \<open>2^e \<le> |x| < 2^(e+1)\<close> is rounded to a multiple of \<open>2^(e-52)\<close>, a tie to the even
  multiple; below \<open>2^(-1022)\<close> the multiples of \<open>2^(-1074)\<close> are the doubles. A result of
  magnitude \<open>2^1024\<close> or more is an infinity. The sign of a zero is not modelled.
\<close>

datatype double = Finite real | PosInf | NegInf | NaN

definition round_even :: "real \<Rightarrow> int" where
  "round_even x =
     (let f = \<lfloor>x\<rfloor>
      in if x - of_int f < 1 / 2 then f
         else if 1 / 2 < x - of_int f then f + 1
         else if even f then f else f + 1)"

definition quantum :: "real \<Rightarrow> real" where
  "quantum x = 2 powr (of_int (max \<lfloor>log 2 \<bar>x\<bar>\<rfloor> (- 1022)) - 52)"

definition nearest :: "real \<Rightarrow> real" where
  "nearest x = of_int (round_even (x / quantum x)) * quantum x"

definition to_double :: "real \<Rightarrow> double" where
  "to_double x =
     (let y = nearest x
      in if 2 ^ 1024 \<le> y then PosInf else if y \<le> - (2 ^ 1024) then NegInf else Finite y)"

fun is_finite :: "double \<Rightarrow> bool" where
  "is_finite (Finite x) = True"
| "is_finite x = False"

text \<open>\<open>a + b\<close>, \<open>a * b\<close>, \<open>n % d\<close>, \<open>Math.ceil\<close>, \<open>Math.max\<close> and \<open>a <= b\<close> on doubles. The
  remainder of two finite numbers is exact.\<close>

fun d_add :: "double \<Rightarrow> double \<Rightarrow> double" where
  "d_add (Finite a) (Finite b) = to_double (a + b)"
| "d_add NaN b = NaN"
| "d_add a NaN = NaN"
| "d_add PosInf NegInf = NaN"
| "d_add NegInf PosInf = NaN"
| "d_add PosInf b = PosInf"
| "d_add a PosInf = PosInf"
| "d_add NegInf b = NegInf"
| "d_add a NegInf = NegInf"

fun d_mul :: "double \<Rightarrow> double \<Rightarrow> double" where
  "d_mul (Finite a) (Finite b) = to_double (a * b)"
| "d_mul NaN b = NaN"
| "d_mul a NaN = NaN"
| "d_mul (Finite a) PosInf = (if a = 0 then NaN else if 0 < a then PosInf else NegInf)"
| "d_mul (Finite a) NegInf = (if a = 0 then NaN else if 0 < a then NegInf else PosInf)"
| "d_mul PosInf (Finite b) = (if b = 0 then NaN else if 0 < b then PosInf else NegInf)"
| "d_mul NegInf (Finite b) = (if b = 0 then NaN else if 0 < b then NegInf else PosInf)"
| "d_mul PosInf PosInf = PosInf"
| "d_mul NegInf NegInf = PosInf"
| "d_mul PosInf NegInf = NegInf"
| "d_mul NegInf PosInf = NegInf"

fun d_rem :: "double \<Rightarrow> double \<Rightarrow> double" where
  "d_rem (Finite n) (Finite d) = (case js_rem n d of Some r \<Rightarrow> Finite r | None \<Rightarrow> NaN)"
| "d_rem (Finite n) PosInf = Finite n"
| "d_rem (Finite n) NegInf = Finite n"
| "d_rem n d = NaN"

fun d_ceil :: "double \<Rightarrow> double" where
  "d_ceil (Finite x) = Finite (of_int \<lceil>x\<rceil>)"
| "d_ceil x = x"

fun d_max :: "double \<Rightarrow> double \<Rightarrow> double" where
  "d_max (Finite a) (Finite b) = Finite (max a b)"
| "d_max NaN b = NaN"
| "d_max a NaN = NaN"
| "d_max PosInf b = PosInf"
| "d_max a PosInf = PosInf"
| "d_max NegInf b = b"
| "d_max a NegInf = a"

fun d_le :: "double \<Rightarrow> double \<Rightarrow> bool" where
  "d_le (Finite a) (Finite b) = (a \<le> b)"
| "d_le NaN b = False"
| "d_le a NaN = False"
| "d_le NegInf b = True"
| "d_le a PosInf = True"
| "d_le a b = False"

text \<open>The expression \<open>((x % w) + w) % w\<close> of lines 117 and 143 on doubles, and the offset
  that a frame stores (lines 142 to 144) from the offset, the velocity, the time step and
  the sequence width.\<close>

definition d_wrap :: "double \<Rightarrow> double \<Rightarrow> double" where
  "d_wrap x w = d_rem (d_add (d_rem x w) w) w"

definition nextOffset :: "double \<Rightarrow> double \<Rightarrow> double \<Rightarrow> double \<Rightarrow> double" where
  "nextOffset offset velocity dt w = d_wrap (d_add offset (d_mul velocity dt)) w"

section \<open>ANIMATION_CONFIG\<close>

definition SMOOTH_TAU :: number where
  "SMOOTH_TAU = 25 / 100"

definition MIN_COPIES :: number where
  "MIN_COPIES = 2"

definition COPY_HEADROOM :: number where
  "COPY_HEADROOM = 2"

section \<open>useAnimationLoop\<close>

text \<open>
  The parameters of the hook, which the effect's closures capture: \<open>targetVelocity\<close>,
  \<open>seqWidth\<close>, \<open>isHovered\<close> and \<open>hoverSpeed\<close> (\<open>number | undefined\<close>). They are also the
  effect's dependencies (\<open>trackRef\<close>, the fifth, is a ref object that never changes).
\<close>

record loop_args =
  arg_targetVelocity :: number
  arg_seqWidth :: number
  arg_isHovered :: bool
  arg_hoverSpeed :: "number option"

text \<open>
  The four refs of the hook, and the part of the host they act on: the inline
  \<open>transform\<close> style of the track element (\<open>None\<close>: never assigned; \<open>Some x\<close>:
  \<open>translate3d(x px, 0, 0)\<close>) and the host's list of pending animation-frame callbacks,
  each with its handle and the arguments its closure captured.
\<close>

record loop_state =
  rafRef :: "nat option"
  lastTimestampRef :: "number option"
  offsetRef :: number
  velocityRef :: number
  track_transform :: "number option"
  raf_queue :: "(nat \<times> loop_args) list"
  raf_next :: nat

definition requestAnimationFrame :: "loop_args \<Rightarrow> loop_state \<Rightarrow> nat \<times> loop_state" where
  "requestAnimationFrame cb s =
     (raf_next s, s\<lparr>raf_queue := raf_queue s @ [(raf_next s, cb)], raf_next := Suc (raf_next s)\<rparr>)"

definition cancelAnimationFrame :: "nat \<Rightarrow> loop_state \<Rightarrow> loop_state" where
  "cancelAnimationFrame h s = s\<lparr>raf_queue := filter (\<lambda>(h', cb). h' \<noteq> h) (raf_queue s)\<rparr>"

text \<open>Line 136: the velocity the frame eases towards.\<close>

definition frame_target :: "loop_args \<Rightarrow> number" where
  "frame_target a =
     (case arg_hoverSpeed a of
        Some h \<Rightarrow> if arg_isHovered a then h else arg_targetVelocity a
      | None \<Rightarrow> arg_targetVelocity a)"

text \<open>Line 133, after lines 129 to 131 have set a missing \<open>lastTimestamp\<close> to the frame's.\<close>

definition deltaTime :: "number option \<Rightarrow> number \<Rightarrow> number" where
  "deltaTime lastTimestamp timestamp =
     max 0 (timestamp - (case lastTimestamp of None \<Rightarrow> timestamp | Some l \<Rightarrow> l)) / 1000"

text \<open>Lines 138 and 139.\<close>

definition smooth :: "number \<Rightarrow> number \<Rightarrow> number \<Rightarrow> number" where
  "smooth velocity target dt =
     (let easingFactor = 1 - exp (- dt / SMOOTH_TAU)
      in velocity + (target - velocity) * easingFactor)"

text \<open>The frame callback \<open>animate\<close> (lines 128 to 150), as the closure over \<open>a\<close>.\<close>

definition animate :: "loop_args \<Rightarrow> number \<Rightarrow> loop_state \<Rightarrow> loop_state option" where
  "animate a timestamp s =
     (let dt = deltaTime (lastTimestampRef s) timestamp;
          velocity = smooth (velocityRef s) (frame_target a) dt;
          s1 = s\<lparr>lastTimestampRef := Some timestamp, velocityRef := velocity\<rparr>
      in do {
        s2 \<leftarrow> (if arg_seqWidth a > 0
               then do {
                 nextOffset \<leftarrow> wrap (offsetRef s1 + velocity * dt) (arg_seqWidth a);
                 Some (s1\<lparr>offsetRef := nextOffset, track_transform := Some (- nextOffset)\<rparr>)
               }
               else Some s1);
        let (h, s3) = requestAnimationFrame a s2;
        Some (s3\<lparr>rafRef := Some h\<rparr>)
      })"

text \<open>The three cleanup functions the effect can return: none (line 109), the one of the
  reduced-motion branch (lines 123 to 125), and the one of the running loop (lines 154 to
  160).\<close>

datatype cleanup = NoCleanup | ResetTimestamp | CancelFrame

definition run_cleanup :: "cleanup \<Rightarrow> loop_state \<Rightarrow> loop_state" where
  "run_cleanup c s =
     (case c of
        NoCleanup \<Rightarrow> s
      | ResetTimestamp \<Rightarrow> s\<lparr>lastTimestampRef := None\<rparr>
      | CancelFrame \<Rightarrow>
          (let s1 = (case rafRef s of
                       Some h \<Rightarrow> (cancelAnimationFrame h s)\<lparr>rafRef := None\<rparr>
                     | None \<Rightarrow> s)
           in s1\<lparr>lastTimestampRef := None\<rparr>))"

text \<open>
  The effect body (lines 107 to 161). \<open>track\<close> says whether \<open>trackRef.current\<close> is an
  element, \<open>prefersReduced\<close> is what the host's media query answers when the effect runs.
\<close>

definition useAnimationLoop_effect ::
  "bool \<Rightarrow> bool \<Rightarrow> loop_args \<Rightarrow> loop_state \<Rightarrow> (loop_state \<times> cleanup) option" where
  "useAnimationLoop_effect track prefersReduced a s =
     (if \<not> track then Some (s, NoCleanup)
      else do {
        s1 \<leftarrow> (if arg_seqWidth a > 0
               then do {
                 off \<leftarrow> wrap (offsetRef s) (arg_seqWidth a);
                 Some (s\<lparr>offsetRef := off, track_transform := Some (- off)\<rparr>)
               }
               else Some s);
        if prefersReduced then Some (s1\<lparr>track_transform := Some 0\<rparr>, ResetTimestamp)
        else (let (h, s2) = requestAnimationFrame a s1
              in Some (s2\<lparr>rafRef := Some h\<rparr>, CancelFrame))
      })"

text \<open>The host runs the callbacks that are pending when a frame begins, in the order of
  their registration; a callback registered during the frame waits for the next one.\<close>

fun run_callbacks :: "(nat \<times> loop_args) list \<Rightarrow> number \<Rightarrow> loop_state \<Rightarrow> loop_state option" where
  "run_callbacks [] timestamp s = Some s"
| "run_callbacks ((h, a) # cbs) timestamp s =
     (if (h, a) \<in> set (raf_queue s)
      then animate a timestamp (cancelAnimationFrame h s) \<bind> run_callbacks cbs timestamp
      else run_callbacks cbs timestamp s)"

definition fire_frame :: "number \<Rightarrow> loop_state \<Rightarrow> loop_state option" where
  "fire_frame timestamp s = run_callbacks (raf_queue s) timestamp s"

definition initial_loop :: loop_state where
  "initial_loop =
     \<lparr>rafRef = None, lastTimestampRef = None, offsetRef = 0, velocityRef = 0,
      track_transform = None, raf_queue = [], raf_next = 0\<rparr>"


section \<open>LogoLoop: props, state, layout\<close>

datatype direction = left | right

text \<open>The props that reach the layout sizer and the motion controller, after the
  defaults of the parameter list have been applied (\<open>hoverSpeed\<close> has none).\<close>

record props =
  speed :: number
  direction :: direction
  hoverSpeed :: "number option"

text \<open>Lines 216 to 219.\<close>

definition effectiveHoverSpeed :: "number option \<Rightarrow> number" where
  "effectiveHoverSpeed hs = (case hs of Some h \<Rightarrow> h | None \<Rightarrow> 0)"

text \<open>Lines 221 to 226.\<close>

definition targetVelocity :: "number \<Rightarrow> direction \<Rightarrow> number" where
  "targetVelocity sp dir =
     (let magnitude = \<bar>sp\<bar>;
          directionMultiplier = (if dir = left then 1 else - 1);
          speedMultiplier = (if sp < 0 then - 1 else 1)
      in magnitude * directionMultiplier * speedMultiplier)"

text \<open>What \<open>updateDimensions\<close> reads from the document: \<open>containerRef.current?.clientWidth\<close>
  and \<open>seqRef.current?.getBoundingClientRect().width\<close>, \<open>None\<close> when the ref is empty.\<close>

record measurement =
  clientWidth :: "number option"
  rectWidth :: "number option"

text \<open>
  One mounted component: its props, its three state variables, the refs and host state
  of the animation hook, the dependencies and the cleanup of the hook's last effect run,
  the present answer of the host's reduced-motion media query, and whether the component
  is still mounted.
\<close>

record comp =
  props :: props
  seqWidth :: number
  copyCount :: double
  isHovered :: bool
  loop :: loop_state
  effect_args :: "loop_args option"
  effect_cleanup :: cleanup
  reducedMotion :: bool
  mounted :: bool

text \<open>Lines 228 to 238, with the two widths of lines 229 to 231. The quotient of line
  235 is a double: the exact quotient, rounded; its ceiling and \<open>COPY_HEADROOM\<close> are
  added as doubles.\<close>

definition containerWidth :: "measurement \<Rightarrow> number" where
  "containerWidth m = (case clientWidth m of Some w \<Rightarrow> w | None \<Rightarrow> 0)"

definition sequenceWidth :: "measurement \<Rightarrow> number" where
  "sequenceWidth m = (case rectWidth m of Some w \<Rightarrow> w | None \<Rightarrow> 0)"

definition copiesNeeded :: "number \<Rightarrow> double" where
  "copiesNeeded q = d_add (d_ceil (to_double q)) (Finite COPY_HEADROOM)"

definition updateDimensions :: "measurement \<Rightarrow> comp \<Rightarrow> comp option" where
  "updateDimensions m c =
     (if sequenceWidth m > 0
      then do {
        q \<leftarrow> js_div (containerWidth m) (sequenceWidth m);
        Some (c\<lparr>seqWidth := of_int \<lceil>sequenceWidth m\<rceil>,
                copyCount := d_max (Finite MIN_COPIES) (copiesNeeded q)\<rparr>)
      }
      else Some c)"

text \<open>Line 244: the arguments the component passes to \<open>useAnimationLoop\<close> on a render.\<close>

definition hook_args :: "comp \<Rightarrow> loop_args" where
  "hook_args c =
     \<lparr>arg_targetVelocity = targetVelocity (speed (props c)) (direction (props c)),
      arg_seqWidth = seqWidth c,
      arg_isHovered = isHovered c,
      arg_hoverSpeed = Some (effectiveHoverSpeed (hoverSpeed (props c)))\<rparr>"

text \<open>
  The framework's handling of the hook's effect. After a render it compares the
  dependencies with those of the last run; when they differ it calls the cleanup of the
  last run and runs the effect again. The track element is rendered on every render
  (line 420), so \<open>trackRef.current\<close> is an element whenever the effect runs.
\<close>

definition run_effect :: "comp \<Rightarrow> comp option" where
  "run_effect c =
     do {
       (l, cl) \<leftarrow> useAnimationLoop_effect True (reducedMotion c) (hook_args c) (loop c);
       Some (c\<lparr>loop := l, effect_args := Some (hook_args c), effect_cleanup := cl\<rparr>)
     }"

definition render :: "comp \<Rightarrow> comp option" where
  "render c =
     (if effect_args c = Some (hook_args c) then Some c
      else run_effect (c\<lparr>loop := run_cleanup (effect_cleanup c) (loop c)\<rparr>))"

definition mount :: "props \<Rightarrow> bool \<Rightarrow> comp option" where
  "mount p reduced =
     run_effect
       \<lparr>props = p, seqWidth = 0, copyCount = Finite MIN_COPIES, isHovered = False,
        loop = initial_loop, effect_args = None, effect_cleanup = NoCleanup,
        reducedMotion = reduced, mounted = True\<rparr>"

definition unmount :: "comp \<Rightarrow> comp" where
  "unmount c =
     c\<lparr>loop := run_cleanup (effect_cleanup c) (loop c), effect_args := None,
       effect_cleanup := NoCleanup, mounted := False\<rparr>"

text \<open>
  What can happen to a mounted component: the pointer enters or leaves (lines 269 to
  275), the parent renders it with new props, a resize observation or the image loader
  calls \<open>updateDimensions\<close>, the host begins a frame, the host's reduced-motion
  preference changes, the component is unmounted. After the unmount the component's
  handlers and observers are gone; the host still begins frames.
\<close>

datatype event =
    MouseEnter
  | MouseLeave
  | SetProps props
  | Measure measurement
  | Frame number
  | SetReducedMotion bool
  | Unmount

text \<open>The state update of an event's handler: the hover flag (lines 269 to 275, only
  while a \<open>hoverSpeed\<close> is configured), the new props, the new layout.\<close>

fun update :: "event \<Rightarrow> comp \<Rightarrow> comp option" where
  "update MouseEnter c = Some (if hoverSpeed (props c) \<noteq> None then c\<lparr>isHovered := True\<rparr> else c)"
| "update MouseLeave c = Some (if hoverSpeed (props c) \<noteq> None then c\<lparr>isHovered := False\<rparr> else c)"
| "update (SetProps p) c = Some (c\<lparr>props := p\<rparr>)"
| "update (Measure m) c = updateDimensions m c"
| "update e c = Some c"

fun step :: "event \<Rightarrow> comp \<Rightarrow> comp option" where
  "step (Frame t) c = do { l \<leftarrow> fire_frame t (loop c); Some (c\<lparr>loop := l\<rparr>) }"
| "step (SetReducedMotion b) c = Some (c\<lparr>reducedMotion := b\<rparr>)"
| "step Unmount c = Some (if mounted c then unmount c else c)"
| "step e c = (if mounted c then update e c \<bind> render else Some c)"

fun run :: "event list \<Rightarrow> comp \<Rightarrow> comp option" where
  "run [] c = Some c"
| "run (e # es) c = step e c \<bind> run es"

definition lifecycle :: "props \<Rightarrow> bool \<Rightarrow> event list \<Rightarrow> comp option" where
  "lifecycle p reduced es = mount p reduced \<bind> run es"

section \<open>useImageLoader\<close>

text \<open>
  One run of the effect of \<open>useImageLoader\<close> (lines 53 to 92). The images of the sequence
  are numbered in document order. The state holds the counter of the run, the images on
  which \<open>handleImageLoad\<close> is registered for \<open>load\<close> and for \<open>error\<close>, and how often
  \<open>onLoad\<close> has been called.
\<close>

record img_loader =
  remainingImages :: int
  load_listeners :: "nat set"
  error_listeners :: "nat set"
  onLoad_calls :: nat

definition initial_loader :: img_loader where
  "initial_loader =
     \<lparr>remainingImages = 0, load_listeners = {}, error_listeners = {}, onLoad_calls = 0\<rparr>"

definition onLoad :: "img_loader \<Rightarrow> img_loader" where
  "onLoad s = s\<lparr>onLoad_calls := Suc (onLoad_calls s)\<rparr>"

definition handleImageLoad :: "img_loader \<Rightarrow> img_loader" where
  "handleImageLoad s =
     (let s1 = s\<lparr>remainingImages := remainingImages s - 1\<rparr>
      in if remainingImages s1 = 0 then onLoad s1 else s1)"

text \<open>The \<open>forEach\<close> of lines 75 to 83 over the \<open>complete\<close> flags of the images, from
  image number \<open>i\<close> on.\<close>

fun register_images :: "bool list \<Rightarrow> nat \<Rightarrow> img_loader \<Rightarrow> img_loader" where
  "register_images [] i s = s"
| "register_images (is_complete # imgs) i s =
     register_images imgs (Suc i)
       (if is_complete then handleImageLoad s
        else s\<lparr>load_listeners := insert i (load_listeners s),
               error_listeners := insert i (error_listeners s)\<rparr>)"

text \<open>The effect: \<open>container\<close> is \<open>None\<close> when \<open>seqRef.current\<close> is empty, and otherwise
  lists the \<open>complete\<close> flag of every image that \<open>querySelectorAll\<close> finds.\<close>

definition useImageLoader_effect :: "bool list option \<Rightarrow> img_loader \<Rightarrow> img_loader" where
  "useImageLoader_effect container s =
     (case container of
        None \<Rightarrow> onLoad s
      | Some images \<Rightarrow>
          if length images = 0 then onLoad s
          else register_images images 0 (s\<lparr>remainingImages := int (length images)\<rparr>))"

text \<open>The host delivers a \<open>load\<close> or an \<open>error\<close> event to an image. A listener added
  with \<open>once: true\<close> is removed when it is called.\<close>

datatype img_event = LoadEvent nat | ErrorEvent nat

fun event_image :: "img_event \<Rightarrow> nat" where
  "event_image (LoadEvent i) = i"
| "event_image (ErrorEvent i) = i"

fun dispatch :: "img_event \<Rightarrow> img_loader \<Rightarrow> img_loader" where
  "dispatch (LoadEvent i) s =
     (if i \<in> load_listeners s
      then handleImageLoad (s\<lparr>load_listeners := load_listeners s - {i}\<rparr>) else s)"
| "dispatch (ErrorEvent i) s =
     (if i \<in> error_listeners s
      then handleImageLoad (s\<lparr>error_listeners := error_listeners s - {i}\<rparr>) else s)"

fun dispatch_all :: "img_event list \<Rightarrow> img_loader \<Rightarrow> img_loader" where
  "dispatch_all [] s = s"
| "dispatch_all (e # es) s = dispatch_all es (dispatch e s)"

text \<open>The images of a sequence that are not complete when the effect runs.\<close>

definition incomplete :: "bool list \<Rightarrow> nat set" where
  "incomplete images = {i. i < length images \<and> \<not> images ! i}"

text \<open>The cleanup of the effect (lines 85 to 90) removes the listeners of the run from
  every image.\<close>

definition useImageLoader_cleanup :: "img_loader \<Rightarrow> img_loader" where
  "useImageLoader_cleanup s = s\<lparr>load_listeners := {}, error_listeners := {}\<rparr>"

text \<open>
  The hook across the renders of the component. The dependency list of line 92 is
  \<open>[onLoad, seqRef, dependencies]\<close>: \<open>onLoad\<close> is \<open>updateDimensions\<close>, a callback that never
  changes (line 238), \<open>seqRef\<close> is a ref object, and \<open>dependencies\<close> is the array that the
  caller passes. The framework compares the entries by identity, so the effect runs
  again, after the cleanup of the last run, when the array is not the one of the last
  run. An array is identified here by a number. Line 242 builds the array
  \<open>[logos, gap, logoHeight]\<close> anew in every render.
\<close>

record image_hook =
  last_dependencies :: "nat option"
  loader :: img_loader

definition initial_hook :: image_hook where
  "initial_hook = \<lparr>last_dependencies = None, loader = initial_loader\<rparr>"

definition useImageLoader :: "nat \<Rightarrow> bool list option \<Rightarrow> image_hook \<Rightarrow> image_hook" where
  "useImageLoader dependencies container h =
     (if last_dependencies h = Some dependencies then h
      else \<lparr>last_dependencies = Some dependencies,
            loader = useImageLoader_effect container (useImageLoader_cleanup (loader h))\<rparr>)"

text \<open>The host delivers events to the images between two renders.\<close>

definition deliver :: "img_event list \<Rightarrow> image_hook \<Rightarrow> image_hook" where
  "deliver es h = h\<lparr>loader := dispatch_all es (loader h)\<rparr>"

section \<open>useResizeObserver\<close>

text \<open>
  The three hosts the effect tells apart (lines 20 and 24), and the host's registry: the
  \<open>resize\<close> listeners on the window, the connected observers with the element each one
  observes, and the number of calls of the callback.
\<close>

datatype host_window = NoWindow | WindowWithoutResizeObserver | WindowWithResizeObserver

record observers =
  resize_listeners :: "nat list"
  resize_observers :: "(nat \<times> nat) list"
  callback_calls :: nat
  next_id :: nat

datatype observer_cleanup = NoObserverCleanup | RemoveListener nat | Disconnect "nat list"

text \<open>Lines 31 to 38: one observer for every ref that holds an element.\<close>

fun observe_all :: "nat option list \<Rightarrow> observers \<Rightarrow> observers \<times> nat list" where
  "observe_all [] s = (s, [])"
| "observe_all (None # refs) s = observe_all refs s"
| "observe_all (Some el # refs) s =
     (let ob = next_id s;
          (s', obs) = observe_all refs
             (s\<lparr>resize_observers := (ob, el) # resize_observers s, next_id := Suc ob\<rparr>)
      in (s', ob # obs))"

definition useResizeObserver_effect ::
  "host_window \<Rightarrow> nat option list \<Rightarrow> observers \<Rightarrow> observers \<times> observer_cleanup" where
  "useResizeObserver_effect w elements s =
     (case w of
        NoWindow \<Rightarrow> (s, NoObserverCleanup)
      | WindowWithoutResizeObserver \<Rightarrow>
          (let handleResize = next_id s
           in (s\<lparr>resize_listeners := handleResize # resize_listeners s,
                 next_id := Suc handleResize,
                 callback_calls := Suc (callback_calls s)\<rparr>,
               RemoveListener handleResize))
      | WindowWithResizeObserver \<Rightarrow>
          (let (s', obs) = observe_all elements s
           in (s'\<lparr>callback_calls := Suc (callback_calls s')\<rparr>, Disconnect obs)))"

definition run_observer_cleanup :: "observer_cleanup \<Rightarrow> observers \<Rightarrow> observers" where
  "run_observer_cleanup c s =
     (case c of
        NoObserverCleanup \<Rightarrow> s
      | RemoveListener h \<Rightarrow> s\<lparr>resize_listeners := removeAll h (resize_listeners s)\<rparr>
      | Disconnect obs \<Rightarrow>
          s\<lparr>resize_observers := filter (\<lambda>(ob, el). ob \<notin> set obs) (resize_observers s)\<rparr>)"

definition initial_observers :: observers where
  "initial_observers =
     \<lparr>resize_listeners = [], resize_observers = [], callback_calls = 0, next_id = 0\<rparr>"

section \<open>renderLogoItemInternal\<close>

text \<open>
  An item of \<open>logos\<close> is any value; the fields the renderer reads are optional. \<open>node\<close> is
  \<open>Some\<close> when the item has the key \<open>node\<close>. A \<open>ReactNode\<close> and the element a caller's
  \<open>renderItem\<close> returns are opaque here and stand as strings.
\<close>

record LogoItem =
  node :: "string option"
  src :: "string option"
  srcSet :: "string option"
  sizes :: "string option"
  width :: "number option"
  height :: "number option"
  alt :: "string option"
  title :: "string option"
  href :: "string option"
  ariaLabel :: "string option"

text \<open>The rendered elements, with the attributes that do not come from style classes:
  a \<open>span\<close> (\<open>aria-hidden\<close>, child), an \<open>img\<close> (\<open>src\<close>, \<open>srcSet\<close>, \<open>sizes\<close>, \<open>width\<close>,
  \<open>height\<close>, \<open>alt\<close>, \<open>title\<close>), an \<open>a\<close> (\<open>href\<close>, \<open>aria-label\<close>, \<open>target\<close>, \<open>rel\<close>, child),
  the result of \<open>renderItem\<close>, and the list entry \<open>li\<close> (\<open>key\<close>, child).\<close>

datatype jsx =
    Span bool string
  | Img "string option" "string option" "string option" "number option" "number option"
      string "string option"
  | Anchor string string string string jsx
  | Rendered string

datatype li = Li nat jsx

text \<open>\<open>item?.field\<close>, for an item that may be \<open>null\<close> or \<open>undefined\<close>.\<close>

definition chain :: "LogoItem option \<Rightarrow> (LogoItem \<Rightarrow> 'a option) \<Rightarrow> 'a option" where
  "chain item field = (case item of Some i \<Rightarrow> field i | None \<Rightarrow> None)"

text \<open>\<open>a ?? b\<close>, and the truth value of an optional string.\<close>

definition nullish :: "'a option \<Rightarrow> 'a option \<Rightarrow> 'a option" where
  "nullish a b = (case a of Some x \<Rightarrow> Some x | None \<Rightarrow> b)"

definition truthy :: "string option \<Rightarrow> bool" where
  "truthy s = (case s of Some x \<Rightarrow> x \<noteq> [] | None \<Rightarrow> False)"

text \<open>Lines 277 to 368: the content (lines 297 to 330), the label (line 332), and the
  list entry with the link around the content (lines 334 to 365).\<close>

definition content :: "LogoItem option \<Rightarrow> jsx" where
  "content item =
     (case chain item node of
        Some n \<Rightarrow> Span (truthy (chain item href) \<and> \<not> truthy (chain item ariaLabel)) n
      | None \<Rightarrow>
          Img (chain item src) (chain item srcSet) (chain item sizes)
            (chain item width) (chain item height)
            (case chain item alt of Some a \<Rightarrow> a | None \<Rightarrow> [])
            (chain item title))"

definition itemAriaLabel :: "LogoItem option \<Rightarrow> string option" where
  "itemAriaLabel item =
     (case chain item node of
        Some n \<Rightarrow> nullish (chain item ariaLabel) (chain item title)
      | None \<Rightarrow> nullish (chain item alt) (chain item title))"

definition renderLogoItemInternal ::
  "(LogoItem option \<Rightarrow> nat \<Rightarrow> string) option \<Rightarrow> LogoItem option \<Rightarrow> nat \<Rightarrow> li" where
  "renderLogoItemInternal renderItem item index =
     (case renderItem of
        Some f \<Rightarrow> Li index (Rendered (f item index))
      | None \<Rightarrow>
          (let inner =
                 (case chain item href of
                    Some h \<Rightarrow>
                      if h \<noteq> []
                      then Anchor h
                             (case itemAriaLabel item of
                                Some l \<Rightarrow> if l \<noteq> [] then l else ''logo link''
                              | None \<Rightarrow> ''logo link'')
                             ''_blank'' ''noreferrer noopener'' (content item)
                      else content item
                  | None \<Rightarrow> content item)
           in Li index inner))"

section \<open>The invariant of the reachable states\<close>

text \<open>
  At most one frame callback is pending, and it is the one whose handle \<open>rafRef\<close> holds,
  registered by the effect run that is current; the offset is normalised against the
  sequence width, and is still 0 while no width has been measured; the effect has run
  with the arguments of the last render.
\<close>

definition pending_ok :: "comp \<Rightarrow> bool" where
  "pending_ok c =
     (raf_queue (loop c) = [] \<or>
      (\<exists>h. raf_queue (loop c) = [(h, hook_args c)] \<and> rafRef (loop c) = Some h \<and>
           effect_cleanup c = CancelFrame \<and> mounted c))"

definition offset_ok :: "comp \<Rightarrow> bool" where
  "offset_ok c =
     (if 0 < seqWidth c
      then 0 \<le> offsetRef (loop c) \<and> offsetRef (loop c) < seqWidth c
      else offsetRef (loop c) = 0 \<and>
           (track_transform (loop c) = None \<or> track_transform (loop c) = Some 0))"

definition inv :: "comp \<Rightarrow> bool" where
  "inv c =
     (pending_ok c \<and> offset_ok c \<and> d_le (Finite 2) (copyCount c) \<and>
      (if mounted c then effect_args c = Some (hook_args c) \<and> effect_cleanup c \<noteq> NoCleanup
       else effect_args c = None))"

text \<open>The layout state is the initial one or comes from a measurement of the run.\<close>

definition layout_from :: "event list \<Rightarrow> comp \<Rightarrow> bool" where
  "layout_from es c =
     ((seqWidth c = 0 \<and> copyCount c = Finite 2) \<or>
      (\<exists>m. Measure m \<in> set es \<and> 0 < sequenceWidth m \<and>
           seqWidth c = of_int \<lceil>sequenceWidth m\<rceil> \<and>
           copyCount c = d_max (Finite 2) (copiesNeeded (containerWidth m / sequenceWidth m))))"

section \<open>The time step and the decay in the words of the specification\<close>



section \<open>The velocity target in the words of the specification\<close>

text \<open>
  The target as the specification states it, from whether the pointer hovers and from
  the props: the hover speed when the pointer hovers and a hover speed is configured, and
  otherwise \<open>|speed| * sign(direction) * sign(speed)\<close>. \<open>pending_targets\<close> lists the
  targets that the pending frame callbacks of a component will ease towards.
\<close>

definition spec_target :: "bool \<Rightarrow> props \<Rightarrow> number" where
  "spec_target hovering p =
     (let baseTargetVelocity = \<bar>speed p\<bar> * (if direction p = left then 1 else - 1) * sgn (speed p)
      in case hoverSpeed p of
           Some h \<Rightarrow> if hovering then h else baseTargetVelocity
         | None \<Rightarrow> baseTargetVelocity)"

definition pending_targets :: "comp \<Rightarrow> number list" where
  "pending_targets c = map (frame_target \<circ> snd) (raf_queue (loop c))"

section \<open>Reduced motion, running animation, dependencies\<close>

text \<open>
  \<open>reactivates\<close> says that the render after an event's state update runs the animation
  effect again: the dependencies differ from those of the last run. \<open>preferences\<close> lists
  what the host's media query answers to these effect runs along a run of events, and
  \<open>activation_preferences\<close> what it answers to all effect runs of a mount, the first
  being the one at the mount. \<open>pinned\<close> describes the loop while every activation has run
  under the preference. \<open>track_ok b\<close> describes the track of a mounted component whose
  last activation ran under the answer \<open>b\<close>: the effect has returned the cleanup of that
  branch; under the preference the track is at the translation 0, and otherwise it is
  translated by the negated offset once a width is known. \<open>deps_changed\<close> says that
  the dependencies of the animation effect (the target velocity, the sequence width, the
  hover flag, the effective hover speed) differ between two states, and
  \<open>scheduled_frames\<close> counts the pending frame callbacks.
\<close>

definition reactivates :: "event \<Rightarrow> comp \<Rightarrow> bool" where
  "reactivates e c =
     (mounted c \<and>
      (case e of
         Frame t \<Rightarrow> False
       | SetReducedMotion b \<Rightarrow> False
       | Unmount \<Rightarrow> False
       | _ \<Rightarrow> (case update e c of
                Some c1 \<Rightarrow> effect_args c1 \<noteq> Some (hook_args c1)
              | None \<Rightarrow> False)))"

fun preferences :: "event list \<Rightarrow> comp \<Rightarrow> bool list" where
  "preferences [] c = []"
| "preferences (e # es) c =
     (if reactivates e c then [reducedMotion c] else []) @
     (case step e c of Some c' \<Rightarrow> preferences es c' | None \<Rightarrow> [])"




definition deps_changed :: "comp \<Rightarrow> comp \<Rightarrow> bool" where
  "deps_changed c c' =
     (targetVelocity (speed (props c')) (direction (props c'))
        \<noteq> targetVelocity (speed (props c)) (direction (props c)) \<or>
      seqWidth c' \<noteq> seqWidth c \<or>
      isHovered c' \<noteq> isHovered c \<or>
      effectiveHoverSpeed (hoverSpeed (props c')) \<noteq> effectiveHoverSpeed (hoverSpeed (props c)))"

definition scheduled_frames :: "comp \<Rightarrow> nat" where
  "scheduled_frames c = length (raf_queue (loop c))"

section \<open>The image loader's counter, the accessible name of a link\<close>

text \<open>
  \<open>fired_once\<close>: \<open>onLoad\<close> has been called exactly when the counter has reached 0, and
  then once. \<open>accessible_name\<close> is the name of an item's link in words: for an item with
  a node its \<open>ariaLabel\<close>, for an image item its \<open>alt\<close>; when the item has neither, its
  title; and the default \<open>logo link\<close> when the value found is missing or empty.
\<close>

definition fired_once :: "img_loader \<Rightarrow> bool" where
  "fired_once s =
     (if 0 < remainingImages s then onLoad_calls s = 0 else onLoad_calls s = 1)"

definition accessible_name :: "LogoItem \<Rightarrow> string" where
  "accessible_name i =
     (case (if node i \<noteq> None then ariaLabel i else alt i) of
        Some l \<Rightarrow> if l \<noteq> [] then l else ''logo link''
      | None \<Rightarrow>
          (case title i of
             Some t \<Rightarrow> if t \<noteq> [] then t else ''logo link''
           | None \<Rightarrow> ''logo link''))"

section \<open>Inputs of the examples\<close>

definition reverse_props :: props where
  "reverse_props = \<lparr>speed = - 120, direction = left, hoverSpeed = Some 0\<rparr>"

definition wide_container :: measurement where
  "wide_container = \<lparr>clientWidth = Some 250, rectWidth = Some 200\<rparr>"

definition hook_args_example :: loop_args where
  "hook_args_example =
     \<lparr>arg_targetVelocity = - 120, arg_seqWidth = 200, arg_isHovered = False,
      arg_hoverSpeed = Some 0\<rparr>"

definition running_example :: loop_state where
  "running_example =
     \<lparr>rafRef = Some 3, lastTimestampRef = Some 100, offsetRef = 5, velocityRef = - 120,
      track_transform = Some (- 5), raf_queue = [(3, hook_args_example)], raf_next = 4\<rparr>"

definition fractional_width :: measurement where
  "fractional_width = \<lparr>clientWidth = Some 1000, rectWidth = Some (5864062014805333 / 2 ^ 44)\<rparr>"

definition empty_sequence :: measurement where
  "empty_sequence = \<lparr>clientWidth = Some 250, rectWidth = Some 0\<rparr>"

definition mounted_example :: comp where
  "mounted_example =
     \<lparr>props = reverse_props, seqWidth = 0, copyCount = Finite 2, isHovered = False,
      loop = \<lparr>rafRef = Some 0, lastTimestampRef = None, offsetRef = 0, velocityRef = 0,
               track_transform = None,
               raf_queue = [(0, \<lparr>arg_targetVelocity = - 120, arg_seqWidth = 0,
                                  arg_isHovered = False, arg_hoverSpeed = Some 0\<rparr>)],
               raf_next = 1\<rparr>,
      effect_args = Some \<lparr>arg_targetVelocity = - 120, arg_seqWidth = 0,
                          arg_isHovered = False, arg_hoverSpeed = Some 0\<rparr>,
      effect_cleanup = CancelFrame, reducedMotion = False, mounted = True\<rparr>"

definition hover_props :: props where
  "hover_props = \<lparr>speed = 120, direction = left, hoverSpeed = Some 0\<rparr>"

definition plain_props :: props where
  "plain_props = \<lparr>speed = 120, direction = left, hoverSpeed = None\<rparr>"

definition observing_example :: observers where
  "observing_example =
     \<lparr>resize_listeners = [], resize_observers = [(1, 9), (0, 7)], callback_calls = 1,
      next_id = 2\<rparr>"

definition acme_image :: LogoItem where
  "acme_image =
     \<lparr>node = None, src = Some ''acme.png'', srcSet = None, sizes = None, width = None,
      height = None, alt = None, title = Some ''Acme Corp'',
      href = Some ''https://acme.example'', ariaLabel = Some ''Visit Acme''\<rparr>"

definition acme_node :: LogoItem where
  "acme_node =
     \<lparr>node = Some ''AcmeIcon'', src = None, srcSet = None, sizes = None, width = None,
      height = None, alt = None, title = Some ''Acme Corp'',
      href = Some ''https://acme.example'', ariaLabel = Some ''Visit Acme''\<rparr>"

definition titled_node :: LogoItem where
  "titled_node =
     \<lparr>node = Some ''Icon'', src = None, srcSet = None, sizes = None, width = None,
      height = None, alt = None, title = Some ''Acme Corp'',
      href = Some ''https://acme.example'', ariaLabel = None\<rparr>"

definition bare_node :: LogoItem where
  "bare_node =
     \<lparr>node = Some ''Icon'', src = None, srcSet = None, sizes = None, width = None,
      height = None, alt = None, title = None, href = Some ''https://acme.example'',
      ariaLabel = None\<rparr>"

definition bare_image :: LogoItem where
  "bare_image =
     \<lparr>node = None, src = Some ''acme.png'', srcSet = None, sizes = None, width = None,
      height = None, alt = None, title = None, href = Some ''https://acme.example'',
      ariaLabel = None\<rparr>"

definition unnamed_node :: LogoItem where
  "unnamed_node =
     \<lparr>node = Some ''Icon'', src = None, srcSet = None, sizes = None, width = None,
      height = None, alt = None, title = Some ''Acme Corp'',
      href = Some ''https://acme.example'', ariaLabel = Some []\<rparr>"

definition unnamed_image :: LogoItem where
  "unnamed_image =
     \<lparr>node = None, src = Some ''acme.png'', srcSet = None, sizes = None, width = None,
      height = None, alt = None, title = Some [], href = Some ''https://acme.example'',
      ariaLabel = None\<rparr>"

definition plain_image :: LogoItem where
  "plain_image =
     \<lparr>node = None, src = Some ''plain.png'', srcSet = None, sizes = None, width = Some 120,
      height = Some 28, alt = Some ''Plain'', title = None, href = None, ariaLabel = None\<rparr>"

definition custom_render :: "LogoItem option \<Rightarrow> nat \<Rightarrow> string" where
  "custom_render item index = ''custom''"

section \<open>The remainder and the wrap-around\<close>

lemma js_rem_nonneg:
  assumes "0 < d" "0 \<le> n"
  shows "\<exists>r. js_rem n d = Some r \<and> 0 \<le> r \<and> r < d"
proof -
  define q where "q = n / d"
  have q: "0 \<le> q" using assms by (simp add: q_def)
  have eq: "n = d * q" using assms by (simp add: q_def)
  have lo: "of_int \<lfloor>q\<rfloor> \<le> q" by (rule of_int_floor_le)
  have hi: "q < of_int \<lfloor>q\<rfloor> + 1" by linarith
  have a: "d * of_int \<lfloor>q\<rfloor> \<le> d * q"
    by (rule mult_left_mono [OF lo]) (use assms in simp)
  have b: "d * q < d * (of_int \<lfloor>q\<rfloor> + 1)"
    by (rule mult_strict_left_mono [OF hi assms(1)])
  have "0 \<le> n - d * of_int \<lfloor>q\<rfloor> \<and> n - d * of_int \<lfloor>q\<rfloor> < d"
    using a b unfolding eq by (simp add: algebra_simps)
  moreover have "\<not> n / d < 0" using q unfolding q_def by simp
  ultimately show ?thesis using assms unfolding q_def by (simp add: js_rem_def js_trunc_def)
qed

lemma js_rem_neg:
  assumes "0 < d" "n < 0"
  shows "\<exists>r. js_rem n d = Some r \<and> - d < r \<and> r \<le> 0"
proof -
  define q where "q = n / d"
  have q: "q < 0" using assms by (simp add: q_def divide_neg_pos)
  have eq: "n = d * q" using assms by (simp add: q_def)
  have hi: "q \<le> of_int \<lceil>q\<rceil>" by (rule le_of_int_ceiling)
  have lo: "of_int \<lceil>q\<rceil> - 1 < q" by linarith
  have a: "d * q \<le> d * of_int \<lceil>q\<rceil>"
    by (rule mult_left_mono [OF hi]) (use assms in simp)
  have b: "d * (of_int \<lceil>q\<rceil> - 1) < d * q"
    by (rule mult_strict_left_mono [OF lo assms(1)])
  have "- d < n - d * of_int \<lceil>q\<rceil> \<and> n - d * of_int \<lceil>q\<rceil> \<le> 0"
    using a b unfolding eq by (simp add: algebra_simps)
  then show ?thesis using q assms unfolding q_def by (simp add: js_rem_def js_trunc_def)
qed

lemma wrap_range:
  assumes "0 < w"
  shows "\<exists>r. wrap x w = Some r \<and> 0 \<le> r \<and> r < w"
proof -
  obtain r1 where r1: "js_rem x w = Some r1" "- w < r1" "r1 < w"
  proof (cases "0 \<le> x")
    case True
    from js_rem_nonneg [OF assms True] that show ?thesis by force
  next
    case False
    then have "x < 0" by simp
    from js_rem_neg [OF assms this] that assms show ?thesis by force
  qed
  have "0 \<le> r1 + w" using r1 by simp
  from js_rem_nonneg [OF assms this] r1 show ?thesis by (simp add: wrap_def)
qed

lemma js_rem_small: "0 \<le> x \<Longrightarrow> x < w \<Longrightarrow> js_rem x w = Some x"
proof -
  assume a: "0 \<le> x" "x < w"
  then have "0 \<le> x / w" "x / w < 1" by simp_all
  then have "\<lfloor>x / w\<rfloor> = 0" "\<not> x / w < 0" by linarith+
  then show ?thesis using a by (simp add: js_rem_def js_trunc_def)
qed

lemma js_rem_small_neg: "- w < x \<Longrightarrow> x \<le> 0 \<Longrightarrow> js_rem x w = Some x"
proof -
  assume a: "- w < x" "x \<le> 0"
  then have w: "0 < w" by simp
  have "- 1 < x / w" using a w by (simp add: pos_less_divide_eq)
  moreover have "x / w \<le> 0" using a w by (simp add: divide_le_0_iff)
  ultimately have "\<lceil>x / w\<rceil> = 0" "\<lfloor>x / w\<rfloor> = 0 \<or> x / w < 0" by linarith+
  then show ?thesis using w by (auto simp add: js_rem_def js_trunc_def)
qed

lemma js_rem_shift: "0 \<le> x \<Longrightarrow> x < w \<Longrightarrow> js_rem (x + w) w = Some x"
proof -
  assume a: "0 \<le> x" "x < w"
  then have w: "0 < w" by simp
  have "(x + w) / w = x / w + 1" using w by (simp add: add_divide_distrib)
  moreover have "0 \<le> x / w" "x / w < 1" using a by simp_all
  ultimately have "\<lfloor>(x + w) / w\<rfloor> = 1" by linarith
  moreover have "\<not> (x + w) / w < 0" using a w by (simp add: not_less)
  ultimately show ?thesis using a by (simp add: js_rem_def js_trunc_def)
qed

lemma wrap_id: "0 \<le> x \<Longrightarrow> x < w \<Longrightarrow> wrap x w = Some x"
  by (simp add: wrap_def js_rem_small js_rem_shift)

section \<open>Rounding to doubles\<close>

lemma round_even_bounds: "\<lfloor>x\<rfloor> \<le> round_even x" "round_even x \<le> \<lceil>x\<rceil>"
proof -
  show "\<lfloor>x\<rfloor> \<le> round_even x" by (simp add: round_even_def Let_def)
  have "\<lfloor>x\<rfloor> + 1 \<le> \<lceil>x\<rceil>" if "x - of_int \<lfloor>x\<rfloor> \<ge> 1 / 2"
  proof -
    from that have "of_int \<lfloor>x\<rfloor> < x" by linarith
    then show ?thesis by linarith
  qed
  moreover have "\<lfloor>x\<rfloor> \<le> \<lceil>x\<rceil>" by linarith
  ultimately show "round_even x \<le> \<lceil>x\<rceil>"
    by (auto simp: round_even_def Let_def not_less)
qed

lemma round_even_int: "round_even (of_int n) = n"
  using round_even_bounds [of "of_int n"] by simp

lemma round_even_near: "\<bar>x - of_int n\<bar> < 1 / 2 \<Longrightarrow> round_even x = n"
proof -
  assume a: "\<bar>x - of_int n\<bar> < 1 / 2"
  show ?thesis
  proof (cases "of_int n \<le> x")
    case True
    with a have "\<lfloor>x\<rfloor> = n" by linarith
    with a True show ?thesis by (simp add: round_even_def Let_def)
  next
    case False
    with a have f: "\<lfloor>x\<rfloor> = n - 1" by linarith
    with a False have "1 / 2 < x - of_int \<lfloor>x\<rfloor>" by simp
    with f show ?thesis by (simp add: round_even_def Let_def)
  qed
qed

lemma round_even_neg: "round_even (- x) = - round_even x"
proof (cases "x = of_int \<lfloor>x\<rfloor>")
  case True
  then obtain n where "x = of_int n" ..
  then have "round_even x = n" "round_even (- x) = - n"
    using round_even_int [of n] round_even_int [of "- n"] by simp_all
  then show ?thesis by simp
next
  case False
  then have lt: "of_int \<lfloor>x\<rfloor> < x" by linarith
  have f: "\<lfloor>- x\<rfloor> = - \<lfloor>x\<rfloor> - 1" using lt by linarith
  have d: "- x - of_int \<lfloor>- x\<rfloor> = 1 - (x - of_int \<lfloor>x\<rfloor>)" unfolding f by simp
  show ?thesis
    unfolding round_even_def Let_def d unfolding f
    by (auto simp: not_less)
qed

lemma quantum_pos: "0 < quantum x"
  by (simp add: quantum_def)

lemma quantum_neg: "quantum (- x) = quantum x"
  by (simp add: quantum_def)

lemma nearest_0: "nearest 0 = 0"
  using round_even_int [of 0] by (simp add: nearest_def)

lemma nearest_neg: "nearest (- x) = - nearest x"
  by (simp add: nearest_def quantum_neg round_even_neg)

lemma nearest_nonneg: "0 \<le> x \<Longrightarrow> 0 \<le> nearest x"
proof -
  assume "0 \<le> x"
  then have "0 \<le> x / quantum x" using quantum_pos [of x] by simp
  then have "0 \<le> \<lfloor>x / quantum x\<rfloor>" by simp
  with round_even_bounds(1) [of "x / quantum x"] have "0 \<le> round_even (x / quantum x)" by linarith
  then show ?thesis using quantum_pos [of x] by (simp add: nearest_def)
qed

text \<open>Below \<open>2^53\<close> every integer is a multiple of the quantum.\<close>

lemma quantum_unit:
  assumes "0 < x" "x < 2 ^ 53"
  shows "\<exists>n::nat. quantum x * 2 ^ n = 1"
proof -
  have "log 2 x < 53"
    using assms by (simp add: log_less_iff powr_realpow [symmetric])
  then have "\<lfloor>log 2 x\<rfloor> \<le> 52" by linarith
  then have "max \<lfloor>log 2 \<bar>x\<bar>\<rfloor> (- 1022) \<le> 52" using assms by simp
  then obtain n :: nat where n: "int n = 52 - max \<lfloor>log 2 \<bar>x\<bar>\<rfloor> (- 1022)"
    by (metis diff_ge_0_iff_ge nonneg_int_cases)
  have "quantum x * 2 ^ n = 2 powr (of_int (max \<lfloor>log 2 \<bar>x\<bar>\<rfloor> (- 1022)) - 52) * 2 powr (real n)"
    by (simp add: quantum_def powr_realpow)
  also have "\<dots> = 2 powr (of_int (max \<lfloor>log 2 \<bar>x\<bar>\<rfloor> (- 1022)) - 52 + real n)"
    by (simp add: powr_add)
  also have "of_int (max \<lfloor>log 2 \<bar>x\<bar>\<rfloor> (- 1022)) - 52 + real n = (0::real)"
  proof -
    have "real n = real_of_int (int n)" by simp
    also have "\<dots> = 52 - of_int (max \<lfloor>log 2 \<bar>x\<bar>\<rfloor> (- 1022))" unfolding n by simp
    finally show ?thesis by simp
  qed
  finally show ?thesis by auto
qed

lemma nearest_lower:
  assumes "0 < x" "x < 2 ^ 53" "of_int k \<le> x"
  shows "of_int k \<le> nearest x"
proof -
  from quantum_unit [OF assms(1,2)] obtain n :: nat where n: "quantum x * 2 ^ n = 1" by blast
  have q: "0 < quantum x" by (rule quantum_pos)
  have inv: "1 / quantum x = 2 ^ n" using n q by (simp add: field_simps)
  have "of_int k / quantum x = of_int k * (1 / quantum x)" by simp
  then have "of_int (k * 2 ^ n) = of_int k / quantum x" unfolding inv by simp
  also have "\<dots> \<le> x / quantum x" using assms(3) q by (simp add: divide_right_mono)
  finally have "k * 2 ^ n \<le> \<lfloor>x / quantum x\<rfloor>" by (simp add: le_floor_iff)
  with round_even_bounds(1) [of "x / quantum x"] have "k * 2 ^ n \<le> round_even (x / quantum x)"
    by linarith
  then have "of_int (k * 2 ^ n) \<le> (of_int (round_even (x / quantum x)) :: real)"
    by (simp only: of_int_le_iff)
  then have i: "of_int (k * 2 ^ n) * quantum x \<le> of_int (round_even (x / quantum x)) * quantum x"
    using q by (simp only: mult_right_mono less_imp_le)
  have "of_int (k * 2 ^ n) * quantum x = of_int k * (quantum x * 2 ^ n)" by simp
  also have "\<dots> = of_int k" by (simp only: n mult_1_right)
  finally have e: "of_int (k * 2 ^ n) * quantum x = of_int k" .
  from i [unfolded e] show ?thesis unfolding nearest_def .
qed

lemma nearest_upper:
  assumes "0 < x" "x < 2 ^ 53" "x \<le> of_int k"
  shows "nearest x \<le> of_int k"
proof -
  from quantum_unit [OF assms(1,2)] obtain n :: nat where n: "quantum x * 2 ^ n = 1" by blast
  have q: "0 < quantum x" by (rule quantum_pos)
  have inv: "1 / quantum x = 2 ^ n" using n q by (simp add: field_simps)
  have "x / quantum x \<le> of_int k / quantum x" using assms(3) q by (simp add: divide_right_mono)
  also have "of_int k / quantum x = of_int k * (1 / quantum x)" by simp
  also have "\<dots> = of_int (k * 2 ^ n)" unfolding inv by simp
  finally have "\<lceil>x / quantum x\<rceil> \<le> k * 2 ^ n" by (simp add: ceiling_le_iff)
  with round_even_bounds(2) [of "x / quantum x"] have "round_even (x / quantum x) \<le> k * 2 ^ n"
    by linarith
  then have "(of_int (round_even (x / quantum x)) :: real) \<le> of_int (k * 2 ^ n)"
    by (simp only: of_int_le_iff)
  then have i: "of_int (round_even (x / quantum x)) * quantum x \<le> of_int (k * 2 ^ n) * quantum x"
    using q by (simp only: mult_right_mono less_imp_le)
  have "of_int (k * 2 ^ n) * quantum x = of_int k * (quantum x * 2 ^ n)" by simp
  also have "\<dots> = of_int k" by (simp only: n mult_1_right)
  finally have e: "of_int (k * 2 ^ n) * quantum x = of_int k" .
  from i [unfolded e] show ?thesis unfolding nearest_def .
qed

lemma nearest_int:
  assumes "0 \<le> k" "k < 2 ^ 53"
  shows "nearest (of_int k) = of_int k"
proof (cases "k = 0")
  case True
  then show ?thesis by (simp add: nearest_0)
next
  case False
  with assms have p: "0 < (of_int k :: real)" "(of_int k :: real) < 2 ^ 53"
    by simp_all
  from nearest_lower [OF p, of k] nearest_upper [OF p, of k] show ?thesis by simp
qed

text \<open>Rounding moves the ceiling of a number below \<open>2^53\<close> down by at most one, and
  never up.\<close>

lemma nearest_ceiling:
  assumes "0 \<le> x" "x < 2 ^ 53"
  shows "\<lceil>x\<rceil> - 1 \<le> \<lceil>nearest x\<rceil>" "\<lceil>nearest x\<rceil> \<le> \<lceil>x\<rceil>"
proof -
  show "\<lceil>nearest x\<rceil> \<le> \<lceil>x\<rceil>"
  proof (cases "x = 0")
    case True
    then show ?thesis by (simp add: nearest_0)
  next
    case False
    with assms have "0 < x" by simp
    from nearest_upper [OF this assms(2), of "\<lceil>x\<rceil>"] show ?thesis by (simp add: ceiling_le_iff)
  qed
  show "\<lceil>x\<rceil> - 1 \<le> \<lceil>nearest x\<rceil>"
  proof (cases "x = 0")
    case True
    then show ?thesis by (simp add: nearest_0)
  next
    case False
    with assms have p: "0 < x" by simp
    have "of_int (\<lceil>x\<rceil> - 1) \<le> x" by linarith
    from nearest_lower [OF p assms(2) this] have "of_int (\<lceil>x\<rceil> - 1) \<le> nearest x" .
    then show ?thesis by linarith
  qed
qed

text \<open>Rounding does not pass a power of two.\<close>

lemma nearest_le_pow2:
  assumes p: "0 < y" and le: "y \<le> 2 powr of_int j" and j: "- 1022 \<le> j"
  shows "nearest y \<le> 2 powr of_int j"
proof -
  define E where "E = max \<lfloor>log 2 \<bar>y\<bar>\<rfloor> (- 1022)"
  have q: "quantum y = 2 powr (of_int E - 52)" by (simp add: quantum_def E_def)
  have "log 2 y \<le> of_int j" using p le by (simp add: log_le_iff)
  then have "\<lfloor>log 2 y\<rfloor> \<le> j" by linarith
  with j p have "E \<le> j" by (simp add: E_def)
  then obtain n :: nat where n: "int n = j - E + 52"
    by (metis add_increasing2 diff_ge_0_iff_ge nonneg_int_cases zero_le_numeral)
  have "2 powr of_int j / quantum y = 2 powr (of_int j - (of_int E - 52))"
    unfolding q by (simp add: powr_diff)
  also have "of_int j - (of_int E - 52) = real n"
  proof -
    have "real n = real_of_int (int n)" by simp
    also have "\<dots> = of_int j - of_int E + 52" unfolding n by simp
    finally show ?thesis by simp
  qed
  also have "2 powr real n = of_int (2 ^ n)" by (simp add: powr_realpow)
  finally have e: "2 powr of_int j / quantum y = of_int (2 ^ n)" .
  have qp: "0 < quantum y" by (rule quantum_pos)
  have "y / quantum y \<le> 2 powr of_int j / quantum y"
    using le qp by (simp add: divide_right_mono)
  then have "\<lceil>y / quantum y\<rceil> \<le> 2 ^ n" unfolding e by (simp add: ceiling_le_iff)
  with round_even_bounds(2) [of "y / quantum y"] have "round_even (y / quantum y) \<le> 2 ^ n"
    by linarith
  then have "(of_int (round_even (y / quantum y)) :: real) \<le> of_int (2 ^ n)"
    by (simp only: of_int_le_iff)
  then have i: "of_int (round_even (y / quantum y)) * quantum y \<le> of_int (2 ^ n) * quantum y"
    using qp by (simp only: mult_right_mono less_imp_le)
  have "of_int (2 ^ n) * quantum y = 2 powr of_int j"
    unfolding e [symmetric] using qp by simp
  with i show ?thesis unfolding nearest_def by simp
qed

lemma nearest_abs_le:
  assumes "\<bar>y\<bar> \<le> 2 powr of_int j" "- 1022 \<le> j"
  shows "\<bar>nearest y\<bar> \<le> 2 powr of_int j"
proof -
  consider "y = 0" | "0 < y" | "y < 0" by linarith
  then show ?thesis
  proof cases
    case 1
    then show ?thesis by (simp add: nearest_0)
  next
    case 2
    from nearest_le_pow2 [OF 2 _ assms(2)] assms(1) 2 have "nearest y \<le> 2 powr of_int j" by simp
    moreover from nearest_nonneg [of y] 2 have "0 \<le> nearest y" by simp
    ultimately show ?thesis by simp
  next
    case 3
    then have p: "0 < - y" by simp
    from nearest_le_pow2 [OF p _ assms(2)] assms(1) 3 have "nearest (- y) \<le> 2 powr of_int j" by simp
    moreover from nearest_nonneg [of "- y"] 3 have "0 \<le> nearest (- y)" by simp
    ultimately show ?thesis by (simp add: nearest_neg)
  qed
qed

text \<open>Evaluation inside a binade.\<close>

lemma quantum_binade:
  assumes "2 powr of_int e \<le> x" "x < 2 powr (of_int e + 1)" "- 1022 \<le> e"
  shows "quantum x = 2 powr (of_int e - 52)"
proof -
  have "0 < (2::real) powr of_int e" by simp
  with assms(1) have p: "0 < x" by linarith
  have "\<lfloor>log 2 x\<rfloor> = e"
    using assms(1,2) p by (subst floor_log_eq_powr_iff) simp_all
  then show ?thesis using p assms(3) by (simp add: quantum_def max_def)
qed

lemma nearest_pow2: "- 1022 \<le> e \<Longrightarrow> nearest (2 powr of_int e) = 2 powr of_int e"
proof -
  assume e: "- 1022 \<le> e"
  have q: "quantum (2 powr of_int e) = 2 powr (of_int e - 52)"
    by (rule quantum_binade) (use e in \<open>simp_all add: powr_add\<close>)
  moreover have "2 powr of_int e / 2 powr (of_int e - 52) = (of_int (2 ^ 52) :: real)"
    by (simp add: powr_diff)
  ultimately have "round_even (2 powr of_int e / quantum (2 powr of_int e)) = 2 ^ 52"
    by (simp only: round_even_int)
  then show ?thesis unfolding nearest_def q by (simp add: powr_diff)
qed

section \<open>Doubles: finite results, overflow\<close>

lemma to_double_not_NaN [simp]: "to_double x \<noteq> NaN"
  by (auto simp: to_double_def Let_def)

lemma to_double_Finite: "to_double x = Finite y \<Longrightarrow> y = nearest x"
  by (auto simp: to_double_def Let_def split: if_splits)

lemma to_double_bounded:
  assumes "\<bar>y\<bar> \<le> 2 powr of_int j" "- 1022 \<le> j" "j < 1024"
  shows "\<exists>z. to_double y = Finite z \<and> z = nearest y \<and> \<bar>z\<bar> \<le> 2 powr of_int j"
proof -
  from nearest_abs_le [OF assms(1,2)] have b: "\<bar>nearest y\<bar> \<le> 2 powr of_int j" .
  have "(2::real) powr real_of_int j < 2 powr 1024"
    by (rule powr_less_mono) (use assms(3) in simp_all)
  also have "(2::real) powr 1024 = 2 ^ 1024" by simp
  finally have "2 powr real_of_int j < 2 ^ 1024" .
  with b have "\<not> 2 ^ 1024 \<le> nearest y" "\<not> nearest y \<le> - (2 ^ 1024)" by linarith+
  with b show ?thesis by (simp add: to_double_def Let_def)
qed

lemma to_double_overflow:
  assumes "2 ^ 1024 \<le> y"
  shows "to_double y = PosInf"
proof -
  define e where "e = \<lfloor>log 2 y\<rfloor>"
  have "0 < (2::real) ^ 1024" by simp
  with assms have p: "0 < y" by linarith
  have b: "2 powr of_int e \<le> y" "y < 2 powr (of_int e + 1)"
    using floor_log_eq_powr_iff [of y 2 e] p by (simp_all add: e_def)
  have "(2::real) powr 1024 = 2 ^ 1024" by simp
  with assms b(2) have "(2::real) powr 1024 < 2 powr (of_int e + 1)" by linarith
  then have "1024 < real_of_int e + 1" by (subst (asm) powr_less_cancel_iff) simp_all
  then have e: "1024 \<le> e" by linarith
  then have m: "- 1022 \<le> e" by simp
  have q: "quantum y = 2 powr (of_int e - 52)" by (rule quantum_binade [OF b m])
  have qp: "0 < quantum y" by (rule quantum_pos)
  have "(of_int (2 ^ 52) :: real) = 2 powr of_int e / quantum y"
    unfolding q by (simp add: powr_diff)
  also have "\<dots> \<le> y / quantum y" using b(1) qp by (simp add: divide_right_mono)
  finally have "2 ^ 52 \<le> \<lfloor>y / quantum y\<rfloor>" by (simp add: le_floor_iff)
  with round_even_bounds(1) [of "y / quantum y"] have "2 ^ 52 \<le> round_even (y / quantum y)"
    by linarith
  then have "(of_int (2 ^ 52) :: real) \<le> of_int (round_even (y / quantum y))"
    by (simp only: of_int_le_iff)
  then have "of_int (2 ^ 52) * quantum y \<le> nearest y"
    unfolding nearest_def using qp by (simp only: mult_right_mono less_imp_le)
  moreover have "of_int (2 ^ 52) * quantum y = 2 powr of_int e"
    unfolding q by (simp add: powr_diff)
  moreover have "(2::real) powr 1024 \<le> 2 powr of_int e"
    by (rule powr_mono) (use e in simp_all)
  moreover have "(2::real) powr 1024 = 2 ^ 1024" by simp
  ultimately have "2 ^ 1024 \<le> nearest y" by linarith
  then show ?thesis by (simp add: to_double_def)
qed

lemma to_double_pow2:
  assumes "- 1022 \<le> e" "e < 1024"
  shows "to_double (2 powr of_int e) = Finite (2 powr of_int e)"
proof -
  have "\<bar>2 powr real_of_int e\<bar> \<le> 2 powr of_int e" by simp
  from to_double_bounded [OF this assms] nearest_pow2 [OF assms(1)] show ?thesis by simp
qed

text \<open>The wrap-around on doubles.\<close>

lemma js_rem_range:
  assumes "0 < w"
  shows "\<exists>r. js_rem x w = Some r \<and> - w < r \<and> r < w"
proof (cases "0 \<le> x")
  case True
  from js_rem_nonneg [OF assms True] assms show ?thesis by force
next
  case False
  then have "x < 0" by simp
  from js_rem_neg [OF assms this] assms show ?thesis by force
qed

lemma d_wrap_finite:
  assumes w: "0 < w" and s: "d_add (d_rem (Finite x) (Finite w)) (Finite w) = Finite y"
  shows "\<exists>r. d_wrap (Finite x) (Finite w) = Finite r \<and> 0 \<le> r \<and> r < w"
proof -
  from js_rem_range [OF w, of x] obtain r1 where
    r1: "js_rem x w = Some r1" "- w < r1" "r1 < w" by blast
  from s r1(1) have "to_double (r1 + w) = Finite y" by simp
  from to_double_Finite [OF this] have y: "y = nearest (r1 + w)" .
  have "0 \<le> r1 + w" using r1(2) by simp
  from nearest_nonneg [OF this] y have "0 \<le> y" by simp
  from js_rem_nonneg [OF w this] obtain r where r: "js_rem y w = Some r" "0 \<le> r" "r < w"
    by blast
  have "d_wrap (Finite x) (Finite w) = d_rem (Finite y) (Finite w)"
    unfolding d_wrap_def s ..
  with r show ?thesis by simp
qed

lemma d_wrap_range:
  assumes w: "0 < w" and f: "is_finite (d_add (d_rem s (Finite w)) (Finite w))"
  shows "\<exists>r. d_wrap s (Finite w) = Finite r \<and> 0 \<le> r \<and> r < w"
proof -
  obtain x where x: "s = Finite x"
    using f by (cases s) simp_all
  obtain y where y: "d_add (d_rem (Finite x) (Finite w)) (Finite w) = Finite y"
    using f unfolding x by (cases "d_add (d_rem (Finite x) (Finite w)) (Finite w)") simp_all
  from d_wrap_finite [OF w y] show ?thesis by (simp add: x)
qed

lemma d_wrap_NaN:
  assumes "\<not> is_finite s \<or> \<not> is_finite (d_add (d_rem s (Finite w)) (Finite w))"
  shows "d_wrap s (Finite w) = NaN"
proof -
  have a: "d_rem t (Finite w) = NaN" if "\<not> is_finite t" for t
    using that by (cases t) simp_all
  from assms show ?thesis
  proof
    assume "\<not> is_finite s"
    from a [OF this] show ?thesis by (simp add: d_wrap_def)
  next
    assume "\<not> is_finite (d_add (d_rem s (Finite w)) (Finite w))"
    from a [OF this] show ?thesis by (simp add: d_wrap_def)
  qed
qed

text \<open>No sum of the offset update overflows while the offset, the displacement of the
  frame and the width are at most \<open>2^1022\<close>.\<close>

lemma nextOffset_finite:
  assumes o: "\<bar>offset\<bar> \<le> 2 ^ 1022" and v: "\<bar>velocity * dt\<bar> \<le> 2 ^ 1022"
    and w: "0 < w" "w \<le> 2 ^ 1022"
  shows "is_finite (d_add (Finite offset) (d_mul (Finite velocity) (Finite dt))) \<and>
         is_finite (d_add (d_rem (d_add (Finite offset) (d_mul (Finite velocity) (Finite dt)))
                       (Finite w)) (Finite w))"
proof -
  have "\<bar>velocity * dt\<bar> \<le> 2 powr of_int 1022" using v by simp
  from to_double_bounded [OF this] obtain p where
    p: "to_double (velocity * dt) = Finite p" "\<bar>p\<bar> \<le> 2 powr of_int 1022"
    by auto
  have "\<bar>offset + p\<bar> \<le> 2 ^ 1022 + 2 ^ 1022" using o p(2) by simp
  then have "\<bar>offset + p\<bar> \<le> 2 powr of_int 1023" by simp
  from to_double_bounded [OF this] obtain x where x: "to_double (offset + p) = Finite x" by auto
  from js_rem_range [OF w(1), of x] obtain r1 where r1: "js_rem x w = Some r1" "- w < r1" "r1 < w"
    by blast
  have "\<bar>r1 + w\<bar> \<le> 2 ^ 1022 + 2 ^ 1022" using r1 w by linarith
  then have "\<bar>r1 + w\<bar> \<le> 2 powr of_int 1023" by simp
  from to_double_bounded [OF this] obtain y where y: "to_double (r1 + w) = Finite y" by auto
  show ?thesis using p x r1 y by simp
qed

text \<open>Where no operation of the offset update rounds or overflows, it is the wrap-around
  over the reals.\<close>

lemma nextOffset_exact:
  assumes "to_double (velocity * dt) = Finite (velocity * dt)"
    and "to_double (offset + velocity * dt) = Finite (offset + velocity * dt)"
    and "js_rem (offset + velocity * dt) w = Some r1"
    and "to_double (r1 + w) = Finite (r1 + w)"
  shows "nextOffset (Finite offset) (Finite velocity) (Finite dt) (Finite w) =
     (case wrap (offset + velocity * dt) w of Some r \<Rightarrow> Finite r | None \<Rightarrow> NaN)"
  using assms by (simp add: nextOffset_def d_wrap_def wrap_def)

section \<open>The number of copies\<close>

lemma copies_at_least: "d_le (Finite 2) (d_max (Finite 2) (copiesNeeded q))"
proof -
  have a: "d_le (Finite 2) (d_max (Finite 2) (d_add (Finite k) (Finite 2)))" for k
    by (cases "to_double (k + 2)") simp_all
  show ?thesis
    using a by (cases "to_double q") (simp_all add: copiesNeeded_def COPY_HEADROOM_def)
qed

lemma copies_value:
  assumes "0 \<le> q" "q \<le> 2 ^ 52"
  shows "d_max (Finite 2) (copiesNeeded q) = Finite (of_int (max 2 (\<lceil>nearest q\<rceil> + 2)))"
proof -
  have "(2::real) ^ 52 < 2 ^ 53" by simp
  with assms(2) have q53: "q < 2 ^ 53" by linarith
  note c = nearest_ceiling [OF assms(1) q53]
  have n0: "0 \<le> nearest q" by (rule nearest_nonneg [OF assms(1)])
  have "\<lceil>q\<rceil> \<le> 2 ^ 52" using assms(2) by (simp add: ceiling_le_iff)
  with c(2) have k: "\<lceil>nearest q\<rceil> \<le> 2 ^ 52" by linarith
  have k0: "0 \<le> \<lceil>nearest q\<rceil>" using n0 by simp
  have "\<bar>q\<bar> \<le> 2 powr of_int 52" using assms by simp
  from to_double_bounded [OF this] have t: "to_double q = Finite (nearest q)" by auto
  have s: "real_of_int \<lceil>nearest q\<rceil> + 2 = of_int (\<lceil>nearest q\<rceil> + 2)" by simp
  have k2: "0 \<le> \<lceil>nearest q\<rceil> + 2" "\<lceil>nearest q\<rceil> + 2 < 2 ^ 53" using k k0 by simp_all
  from nearest_int [OF k2] have n: "nearest (of_int (\<lceil>nearest q\<rceil> + 2)) = of_int (\<lceil>nearest q\<rceil> + 2)" .
  from k2 have "real_of_int (\<lceil>nearest q\<rceil> + 2) < real_of_int (2 ^ 53)"
    by (simp only: of_int_less_iff)
  then have "\<bar>real_of_int (\<lceil>nearest q\<rceil> + 2)\<bar> \<le> 2 powr of_int 53" using k2(1) by simp
  from to_double_bounded [OF this] n
  have "to_double (of_int (\<lceil>nearest q\<rceil> + 2)) = Finite (of_int (\<lceil>nearest q\<rceil> + 2))"
    by auto
  then show ?thesis
    unfolding copiesNeeded_def t COPY_HEADROOM_def d_ceil.simps d_add.simps s by simp
qed

text \<open>The quotient \<open>250 / 200\<close>, the double \<open>333.3333333333333\<close>, and the quotient of 1000
  by it.\<close>

lemma nearest_5_4: "nearest (5 / 4) = 5 / 4"
proof -
  have "quantum (5 / 4) = 2 powr (of_int 0 - 52)"
    by (rule quantum_binade) simp_all
  then have q: "quantum (5 / 4) = 1 / 2 ^ 52" by (simp add: powr_minus_divide)
  have "(5 / 4) / quantum (5 / 4) = of_int (5 * 2 ^ 50)" unfolding q by simp
  then have "round_even ((5 / 4) / quantum (5 / 4)) = 5 * 2 ^ 50"
    by (simp only: round_even_int)
  then show ?thesis unfolding nearest_def q by simp
qed

lemma nearest_width: "nearest (5864062014805333 / 2 ^ 44) = 5864062014805333 / 2 ^ 44"
proof -
  let ?x = "5864062014805333 / 2 ^ 44 :: real"
  have "quantum ?x = 2 powr (of_int 8 - 52)"
    by (rule quantum_binade) simp_all
  then have q: "quantum ?x = 1 / 2 ^ 44" by (simp add: powr_minus_divide)
  have "?x / quantum ?x = of_int 5864062014805333" unfolding q by simp
  then have "round_even (?x / quantum ?x) = 5864062014805333"
    by (simp only: round_even_int)
  then show ?thesis unfolding nearest_def q by simp
qed

lemma nearest_third: "nearest (1000 / (5864062014805333 / 2 ^ 44)) = 3"
proof -
  let ?q = "1000 / (5864062014805333 / 2 ^ 44) :: real"
  have "quantum ?q = 2 powr (of_int 1 - 52)"
    by (rule quantum_binade) simp_all
  then have q: "quantum ?q = 1 / 2 ^ 51" by (simp add: powr_minus_divide)
  have "\<bar>?q / quantum ?q - of_int (3 * 2 ^ 51)\<bar> < 1 / 2" unfolding q by simp
  then have "round_even (?q / quantum ?q) = 3 * 2 ^ 51" by (rule round_even_near)
  then show ?thesis unfolding nearest_def q by simp
qed

text \<open>Integers below \<open>2^53\<close> are doubles.\<close>

lemma to_double_int:
  assumes "0 \<le> k" "k < 2 ^ 53"
  shows "to_double (of_int k) = Finite (of_int k)"
proof -
  from assms(2) have "real_of_int k < real_of_int (2 ^ 53)" by (simp only: of_int_less_iff)
  with assms(1) have "\<bar>real_of_int k\<bar> \<le> 2 powr of_int 53" by simp
  from to_double_bounded [OF this] nearest_int [OF assms] show ?thesis by auto
qed

lemma to_double_neg: "to_double x = Finite y \<Longrightarrow> to_double (- x) = Finite (- y)"
  by (auto simp: to_double_def Let_def nearest_neg split: if_splits)

lemma to_double_numeral:
  "numeral k < (2 ^ 53 :: int) \<Longrightarrow> to_double (numeral k) = Finite (numeral k)"
  using to_double_int [of "numeral k"] by simp

lemma to_double_neg_numeral:
  "numeral k < (2 ^ 53 :: int) \<Longrightarrow> to_double (- numeral k) = Finite (- numeral k)"
  using to_double_neg [OF to_double_numeral, of k] by simp

lemma overflow_example: "d_mul (Finite (2 ^ 1023)) (Finite 2) = PosInf"
proof -
  have "(2 :: real) ^ 1024 \<le> 2 ^ 1023 * 2" by simp
  from to_double_overflow [OF this] show ?thesis by simp
qed

text \<open>Beyond \<open>2^53\<close> the sum \<open>ceil(q) + 2\<close> is rounded as well: at the quotient \<open>2^54\<close>
  the two copies of headroom are lost.\<close>

lemma copies_large_quotient: "d_max (Finite 2) (copiesNeeded (2 ^ 54)) = Finite (2 ^ 54)"
proof -
  have a: "to_double (2 ^ 54) = Finite (2 ^ 54)"
    using to_double_pow2 [of 54] by simp
  have "quantum (2 ^ 54 + 2) = 2 powr (of_int 54 - 52)"
    by (rule quantum_binade) simp_all
  then have q: "quantum (2 ^ 54 + 2) = 4" by simp
  have "round_even ((2 ^ 54 + 2) / 4) = 2 ^ 52"
    by (simp add: round_even_def Let_def)
  then have n: "nearest (2 ^ 54 + 2) = 2 ^ 54"
    unfolding nearest_def q by simp
  have "\<bar>2 ^ 54 + 2 :: real\<bar> \<le> 2 powr of_int 55" by simp
  from to_double_bounded [OF this] n have b: "to_double (2 ^ 54 + 2) = Finite (2 ^ 54)" by simp
  have c: "real_of_int \<lceil>2 ^ 54 :: real\<rceil> + 2 = 2 ^ 54 + 2" by simp
  show ?thesis
    unfolding copiesNeeded_def a COPY_HEADROOM_def d_ceil.simps d_add.simps c b by simp
qed

section \<open>One frame, one effect run\<close>

lemma animate_running:
  assumes "0 < arg_seqWidth a"
  shows "\<exists>r. wrap (offsetRef s + smooth (velocityRef s) (frame_target a) (deltaTime (lastTimestampRef s) t)
                 * deltaTime (lastTimestampRef s) t) (arg_seqWidth a) = Some r
           \<and> 0 \<le> r \<and> r < arg_seqWidth a
           \<and> animate a t s = Some (s\<lparr>lastTimestampRef := Some t,
                 velocityRef := smooth (velocityRef s) (frame_target a) (deltaTime (lastTimestampRef s) t),
                 offsetRef := r, track_transform := Some (- r),
                 raf_queue := raf_queue s @ [(raf_next s, a)], raf_next := Suc (raf_next s),
                 rafRef := Some (raf_next s)\<rparr>)"
proof -
  from wrap_range [OF assms] obtain r where
    r: "wrap (offsetRef s + smooth (velocityRef s) (frame_target a) (deltaTime (lastTimestampRef s) t)
                 * deltaTime (lastTimestampRef s) t) (arg_seqWidth a) = Some r" "0 \<le> r" "r < arg_seqWidth a"
    by blast
  then show ?thesis using assms
    by (simp add: animate_def requestAnimationFrame_def Let_def)
qed

lemma animate_frozen:
  assumes "\<not> 0 < arg_seqWidth a"
  shows "animate a t s = Some (s\<lparr>lastTimestampRef := Some t,
                 velocityRef := smooth (velocityRef s) (frame_target a) (deltaTime (lastTimestampRef s) t),
                 raf_queue := raf_queue s @ [(raf_next s, a)], raf_next := Suc (raf_next s),
                 rafRef := Some (raf_next s)\<rparr>)"
  using assms by (simp add: animate_def requestAnimationFrame_def Let_def)

lemma effect_running:
  assumes "0 < arg_seqWidth a"
  shows "\<exists>r. wrap (offsetRef s) (arg_seqWidth a) = Some r \<and> 0 \<le> r \<and> r < arg_seqWidth a
           \<and> useAnimationLoop_effect True reduced a s =
               (if reduced
                then Some (s\<lparr>offsetRef := r, track_transform := Some 0\<rparr>, ResetTimestamp)
                else Some (s\<lparr>offsetRef := r, track_transform := Some (- r),
                       raf_queue := raf_queue s @ [(raf_next s, a)], raf_next := Suc (raf_next s),
                       rafRef := Some (raf_next s)\<rparr>, CancelFrame))"
proof -
  from wrap_range [OF assms] obtain r where
    r: "wrap (offsetRef s) (arg_seqWidth a) = Some r" "0 \<le> r" "r < arg_seqWidth a"
    by blast
  then show ?thesis using assms
    by (simp add: useAnimationLoop_effect_def requestAnimationFrame_def Let_def)
qed

lemma effect_frozen:
  assumes "\<not> 0 < arg_seqWidth a"
  shows "useAnimationLoop_effect True reduced a s =
               (if reduced
                then Some (s\<lparr>track_transform := Some 0\<rparr>, ResetTimestamp)
                else Some (s\<lparr>raf_queue := raf_queue s @ [(raf_next s, a)], raf_next := Suc (raf_next s),
                       rafRef := Some (raf_next s)\<rparr>, CancelFrame))"
  using assms by (simp add: useAnimationLoop_effect_def requestAnimationFrame_def Let_def)

lemma cleanup_queue:
  assumes "pending_ok c"
  shows "raf_queue (run_cleanup (effect_cleanup c) (loop c)) = []"
  using assms
  by (auto simp: pending_ok_def run_cleanup_def cancelAnimationFrame_def split: cleanup.splits option.splits)

lemma cleanup_fields:
  "offsetRef (run_cleanup cl s) = offsetRef s"
  "velocityRef (run_cleanup cl s) = velocityRef s"
  "track_transform (run_cleanup cl s) = track_transform s"
  "raf_next (run_cleanup cl s) = raf_next s"
  by (auto simp: run_cleanup_def cancelAnimationFrame_def Let_def split: cleanup.splits option.splits)

lemma cleanup_timestamp:
  "cl \<noteq> NoCleanup \<Longrightarrow> lastTimestampRef (run_cleanup cl s) = None"
  by (auto simp: run_cleanup_def cancelAnimationFrame_def Let_def split: cleanup.splits option.splits)

lemma hook_args_simps [simp]:
  "arg_seqWidth (hook_args c) = seqWidth c"
  "arg_isHovered (hook_args c) = isHovered c"
  "arg_targetVelocity (hook_args c) = targetVelocity (speed (props c)) (direction (props c))"
  "arg_hoverSpeed (hook_args c) = Some (effectiveHoverSpeed (hoverSpeed (props c)))"
  by (simp_all add: hook_args_def)

lemma hook_args_loop [simp]:
  "hook_args (c\<lparr>loop := l\<rparr>) = hook_args c"
  "hook_args (c\<lparr>effect_args := ea\<rparr>) = hook_args c"
  "hook_args (c\<lparr>effect_cleanup := cl\<rparr>) = hook_args c"
  "hook_args (c\<lparr>reducedMotion := b\<rparr>) = hook_args c"
  "hook_args (c\<lparr>mounted := b\<rparr>) = hook_args c"
  "hook_args (c\<lparr>copyCount := n\<rparr>) = hook_args c"
  by (simp_all add: hook_args_def)

text \<open>An effect run on a state whose queue is empty.\<close>

lemma run_effect_inv:
  assumes q: "raf_queue (loop c) = []" and m: "mounted c" and cc: "d_le (Finite 2) (copyCount c)"
    and z: "\<not> 0 < seqWidth c \<Longrightarrow> offsetRef (loop c) = 0 \<and>
           (track_transform (loop c) = None \<or> track_transform (loop c) = Some 0)"
  shows "\<exists>c'. run_effect c = Some c' \<and> inv c' \<and> props c' = props c \<and> seqWidth c' = seqWidth c
      \<and> copyCount c' = copyCount c \<and> isHovered c' = isHovered c \<and> mounted c' \<and>
      reducedMotion c' = reducedMotion c \<and>
      velocityRef (loop c') = velocityRef (loop c) \<and>
      lastTimestampRef (loop c') = lastTimestampRef (loop c) \<and>
      (if 0 < seqWidth c then wrap (offsetRef (loop c)) (seqWidth c) = Some (offsetRef (loop c'))
       else offsetRef (loop c') = offsetRef (loop c)) \<and>
      (if reducedMotion c then track_transform (loop c') = Some 0 \<and> raf_queue (loop c') = []
       else raf_queue (loop c') = [(raf_next (loop c), hook_args c)] \<and>
            (0 < seqWidth c \<longrightarrow> track_transform (loop c') = Some (- offsetRef (loop c'))) \<and>
            (\<not> 0 < seqWidth c \<longrightarrow> track_transform (loop c') = track_transform (loop c))) \<and>
      effect_cleanup c' = (if reducedMotion c then ResetTimestamp else CancelFrame)"
proof (cases "0 < seqWidth c")
  case True
  then have "0 < arg_seqWidth (hook_args c)" by simp
  from effect_running [OF this, of "loop c" "reducedMotion c"] obtain r where
    r: "wrap (offsetRef (loop c)) (seqWidth c) = Some r" "0 \<le> r" "r < seqWidth c"
    and e: "useAnimationLoop_effect True (reducedMotion c) (hook_args c) (loop c) =
               (if reducedMotion c
                then Some ((loop c)\<lparr>offsetRef := r, track_transform := Some 0\<rparr>, ResetTimestamp)
                else Some ((loop c)\<lparr>offsetRef := r, track_transform := Some (- r),
                       raf_queue := raf_queue (loop c) @ [(raf_next (loop c), hook_args c)],
                       raf_next := Suc (raf_next (loop c)),
                       rafRef := Some (raf_next (loop c))\<rparr>, CancelFrame))"
    by auto
  show ?thesis
  proof (cases "reducedMotion c")
    case True
    with e have "run_effect c = Some (c\<lparr>loop := (loop c)\<lparr>offsetRef := r, track_transform := Some 0\<rparr>,
        effect_args := Some (hook_args c), effect_cleanup := ResetTimestamp\<rparr>)"
      by (simp add: run_effect_def)
    then show ?thesis
      using \<open>0 < seqWidth c\<close> True r q m cc
      by (simp add: inv_def pending_ok_def offset_ok_def)
  next
    case False
    with e have "run_effect c = Some (c\<lparr>loop := (loop c)\<lparr>offsetRef := r, track_transform := Some (- r),
                       raf_queue := raf_queue (loop c) @ [(raf_next (loop c), hook_args c)],
                       raf_next := Suc (raf_next (loop c)),
                       rafRef := Some (raf_next (loop c))\<rparr>,
        effect_args := Some (hook_args c), effect_cleanup := CancelFrame\<rparr>)"
      by (simp add: run_effect_def)
    then show ?thesis
      using \<open>0 < seqWidth c\<close> False r q m cc
      by (simp add: inv_def pending_ok_def offset_ok_def)
  qed
next
  case False
  then have "\<not> 0 < arg_seqWidth (hook_args c)" by simp
  note e = effect_frozen [OF this, of "reducedMotion c" "loop c"]
  show ?thesis
  proof (cases "reducedMotion c")
    case True
    with e have "run_effect c = Some (c\<lparr>loop := (loop c)\<lparr>track_transform := Some 0\<rparr>,
        effect_args := Some (hook_args c), effect_cleanup := ResetTimestamp\<rparr>)"
      by (simp add: run_effect_def)
    then show ?thesis
      using \<open>\<not> 0 < seqWidth c\<close> True q m cc z
      by (simp add: inv_def pending_ok_def offset_ok_def)
  next
    case False
    with e have "run_effect c = Some (c\<lparr>loop := (loop c)\<lparr>
                       raf_queue := raf_queue (loop c) @ [(raf_next (loop c), hook_args c)],
                       raf_next := Suc (raf_next (loop c)),
                       rafRef := Some (raf_next (loop c))\<rparr>,
        effect_args := Some (hook_args c), effect_cleanup := CancelFrame\<rparr>)"
      by (simp add: run_effect_def)
    then show ?thesis
      using \<open>\<not> 0 < seqWidth c\<close> False q m cc z
      by (simp add: inv_def pending_ok_def offset_ok_def)
  qed
qed

section \<open>Every step keeps the invariant\<close>

lemma render_inv:
  assumes i: "inv c0" and m0: "mounted c0"
    and l: "loop c = loop c0" and ea: "effect_args c = effect_args c0"
    and ec: "effect_cleanup c = effect_cleanup c0" and m: "mounted c" and cc: "d_le (Finite 2) (copyCount c)"
    and z: "\<not> 0 < seqWidth c \<Longrightarrow> \<not> 0 < seqWidth c0"
  shows "\<exists>c'. render c = Some c' \<and> inv c' \<and> props c' = props c \<and> seqWidth c' = seqWidth c
      \<and> copyCount c' = copyCount c \<and> isHovered c' = isHovered c \<and> mounted c' \<and>
      reducedMotion c' = reducedMotion c \<and>
      velocityRef (loop c') = velocityRef (loop c0) \<and>
      (if 0 < seqWidth c then wrap (offsetRef (loop c0)) (seqWidth c) = Some (offsetRef (loop c'))
       else offsetRef (loop c') = offsetRef (loop c0)) \<and>
      (if hook_args c = hook_args c0 then loop c' = loop c0
       else lastTimestampRef (loop c') = None \<and>
            (if reducedMotion c then track_transform (loop c') = Some 0 \<and> raf_queue (loop c') = []
             else raf_queue (loop c') = [(raf_next (loop c0), hook_args c)] \<and>
               (0 < seqWidth c \<longrightarrow> track_transform (loop c') = Some (- offsetRef (loop c'))) \<and>
               (\<not> 0 < seqWidth c \<longrightarrow> track_transform (loop c') = track_transform (loop c0)))) \<and>
      effect_cleanup c' =
        (if hook_args c = hook_args c0 then effect_cleanup c0
         else if reducedMotion c then ResetTimestamp else CancelFrame)"
proof (cases "hook_args c = hook_args c0")
  case True
  from i m0 have ea0: "effect_args c0 = Some (hook_args c0)" by (simp add: inv_def)
  have r: "render c = Some c" using True ea ea0 by (simp add: render_def)
  have sw: "seqWidth c = seqWidth c0"
    using True by (metis hook_args_simps(1))
  have "inv c"
    using i True l ea ec m m0 cc sw
    by (simp add: inv_def pending_ok_def offset_ok_def)
  moreover have "0 < seqWidth c \<Longrightarrow> wrap (offsetRef (loop c0)) (seqWidth c) = Some (offsetRef (loop c0))"
    using i sw by (simp add: inv_def offset_ok_def wrap_id)
  ultimately show ?thesis using r True l m ec by simp
next
  case False
  from i m0 have ea0: "effect_args c0 = Some (hook_args c0)" "effect_cleanup c0 \<noteq> NoCleanup"
    by (simp_all add: inv_def)
  define c1 where "c1 = c\<lparr>loop := run_cleanup (effect_cleanup c) (loop c)\<rparr>"
  have r: "render c = run_effect c1" using False ea ea0 by (auto simp add: render_def c1_def)
  from i have "pending_ok c0" by (simp add: inv_def)
  from cleanup_queue [OF this] have q: "raf_queue (loop c1) = []" by (simp add: c1_def l ec)
  have f: "offsetRef (loop c1) = offsetRef (loop c0)" "velocityRef (loop c1) = velocityRef (loop c0)"
    "track_transform (loop c1) = track_transform (loop c0)" "raf_next (loop c1) = raf_next (loop c0)"
    "lastTimestampRef (loop c1) = None"
    using ea0 by (simp_all add: c1_def l ec cleanup_fields cleanup_timestamp)
  have g: "mounted c1" "d_le (Finite 2) (copyCount c1)" "seqWidth c1 = seqWidth c" "props c1 = props c"
    "isHovered c1 = isHovered c" "reducedMotion c1 = reducedMotion c" "copyCount c1 = copyCount c"
    "hook_args c1 = hook_args c"
    using m cc by (simp_all add: c1_def)
  have z1: "\<not> 0 < seqWidth c1 \<Longrightarrow> offsetRef (loop c1) = 0 \<and>
           (track_transform (loop c1) = None \<or> track_transform (loop c1) = Some 0)"
    using i z by (simp add: f g inv_def offset_ok_def)
  from run_effect_inv [OF q g(1) g(2) z1] obtain c' where
    c': "run_effect c1 = Some c'" "inv c'" "props c' = props c1" "seqWidth c' = seqWidth c1"
      "copyCount c' = copyCount c1" "isHovered c' = isHovered c1" "mounted c'"
      "reducedMotion c' = reducedMotion c1"
      "velocityRef (loop c') = velocityRef (loop c1)"
      "lastTimestampRef (loop c') = lastTimestampRef (loop c1)"
      "(if 0 < seqWidth c1 then wrap (offsetRef (loop c1)) (seqWidth c1) = Some (offsetRef (loop c'))
       else offsetRef (loop c') = offsetRef (loop c1))"
      "(if reducedMotion c1 then track_transform (loop c') = Some 0 \<and> raf_queue (loop c') = []
       else raf_queue (loop c') = [(raf_next (loop c1), hook_args c1)] \<and>
            (0 < seqWidth c1 \<longrightarrow> track_transform (loop c') = Some (- offsetRef (loop c'))) \<and>
            (\<not> 0 < seqWidth c1 \<longrightarrow> track_transform (loop c') = track_transform (loop c1)))"
      "effect_cleanup c' = (if reducedMotion c1 then ResetTimestamp else CancelFrame)"
    by blast
  show ?thesis
    using r c' False unfolding f g by (intro exI [of _ c']) simp
qed

lemma run_callbacks_Nil [simp]: "run_callbacks [] t = Some"
  by (rule ext) simp

lemma fire_frame_inv:
  assumes i: "inv c"
  shows "\<exists>l. fire_frame t (loop c) = Some l \<and> inv (c\<lparr>loop := l\<rparr>) \<and>
     (if raf_queue (loop c) = [] then l = loop c
      else velocityRef l = smooth (velocityRef (loop c)) (frame_target (hook_args c))
                              (deltaTime (lastTimestampRef (loop c)) t) \<and>
           lastTimestampRef l = Some t \<and>
           raf_queue l = [(raf_next (loop c), hook_args c)] \<and>
           (if 0 < seqWidth c
            then wrap (offsetRef (loop c) + velocityRef l * deltaTime (lastTimestampRef (loop c)) t)
                   (seqWidth c) = Some (offsetRef l) \<and> track_transform l = Some (- offsetRef l)
            else offsetRef l = offsetRef (loop c) \<and> track_transform l = track_transform (loop c)))"
proof (cases "raf_queue (loop c) = []")
  case True
  then show ?thesis using i
    by (simp add: fire_frame_def inv_def pending_ok_def offset_ok_def)
next
  case False
  with i obtain h where h: "raf_queue (loop c) = [(h, hook_args c)]" "rafRef (loop c) = Some h"
    "effect_cleanup c = CancelFrame" "mounted c"
    by (auto simp: inv_def pending_ok_def)
  define s where "s = cancelAnimationFrame h (loop c)"
  have s: "raf_queue s = []" "offsetRef s = offsetRef (loop c)" "velocityRef s = velocityRef (loop c)"
    "lastTimestampRef s = lastTimestampRef (loop c)" "track_transform s = track_transform (loop c)"
    "raf_next s = raf_next (loop c)"
    by (simp_all add: s_def cancelAnimationFrame_def h)
  have ff: "fire_frame t (loop c) = animate (hook_args c) t s"
    by (simp add: fire_frame_def h s_def)
  show ?thesis
  proof (cases "0 < seqWidth c")
    case True
    then have "0 < arg_seqWidth (hook_args c)" by simp
    from animate_running [OF this, of s t] obtain r where
      r: "wrap (offsetRef s + smooth (velocityRef s) (frame_target (hook_args c)) (deltaTime (lastTimestampRef s) t)
                 * deltaTime (lastTimestampRef s) t) (seqWidth c) = Some r" "0 \<le> r" "r < seqWidth c"
      and a: "animate (hook_args c) t s = Some (s\<lparr>lastTimestampRef := Some t,
                 velocityRef := smooth (velocityRef s) (frame_target (hook_args c)) (deltaTime (lastTimestampRef s) t),
                 offsetRef := r, track_transform := Some (- r),
                 raf_queue := raf_queue s @ [(raf_next s, hook_args c)], raf_next := Suc (raf_next s),
                 rafRef := Some (raf_next s)\<rparr>)"
      by auto
    show ?thesis
      using i True r h False unfolding ff a
      by (simp add: inv_def pending_ok_def offset_ok_def s)
  next
    case nz: False
    then have "\<not> 0 < arg_seqWidth (hook_args c)" by simp
    note a = animate_frozen [OF this, of t s]
    show ?thesis
      using i nz h False unfolding ff a
      by (simp add: inv_def pending_ok_def offset_ok_def s)
  qed
qed

lemma updateDimensions_cases:
  "updateDimensions m c =
     (if 0 < sequenceWidth m
      then Some (c\<lparr>seqWidth := of_int \<lceil>sequenceWidth m\<rceil>,
             copyCount := d_max (Finite 2) (copiesNeeded (containerWidth m / sequenceWidth m))\<rparr>)
      else Some c)"
  by (simp add: updateDimensions_def js_div_def MIN_COPIES_def)

lemma ceiling_pos_real: "0 < (x::real) \<Longrightarrow> 0 < real_of_int \<lceil>x\<rceil>"
  by (simp add: less_le_trans [OF _ le_of_int_ceiling])

text \<open>What a handler's state update leaves alone.\<close>

lemma update_frame:
  assumes "d_le (Finite 2) (copyCount c)"
  shows "\<exists>c1. update e c = Some c1 \<and> loop c1 = loop c \<and>
      effect_args c1 = effect_args c \<and> effect_cleanup c1 = effect_cleanup c \<and>
      mounted c1 = mounted c \<and> reducedMotion c1 = reducedMotion c \<and>
      d_le (Finite 2) (copyCount c1) \<and> (\<not> 0 < seqWidth c1 \<longrightarrow> seqWidth c1 = seqWidth c)"
proof (cases e)
  case (Measure m)
  then show ?thesis using assms ceiling_pos_real [of "sequenceWidth m"]
    by (simp add: updateDimensions_cases copies_at_least)
qed (use assms in simp_all)

text \<open>An event that a handler of the mounted component receives: the state update and
  the render that follows it.\<close>

lemma step_render:
  assumes i: "inv c" and m: "mounted c"
    and e: "e = MouseEnter \<or> e = MouseLeave \<or> (\<exists>p. e = SetProps p) \<or> (\<exists>m. e = Measure m)"
  shows "\<exists>c1 c'. update e c = Some c1 \<and> step e c = Some c' \<and> inv c' \<and>
      props c' = props c1 \<and> seqWidth c' = seqWidth c1 \<and> copyCount c' = copyCount c1 \<and>
      isHovered c' = isHovered c1 \<and> mounted c' \<and> reducedMotion c' = reducedMotion c \<and>
      velocityRef (loop c') = velocityRef (loop c) \<and>
      (if 0 < seqWidth c1 then wrap (offsetRef (loop c)) (seqWidth c1) = Some (offsetRef (loop c'))
       else offsetRef (loop c') = offsetRef (loop c)) \<and>
      (if hook_args c1 = hook_args c then loop c' = loop c
       else lastTimestampRef (loop c') = None \<and>
            (if reducedMotion c then track_transform (loop c') = Some 0 \<and> raf_queue (loop c') = []
             else raf_queue (loop c') = [(raf_next (loop c), hook_args c1)] \<and>
               (0 < seqWidth c1 \<longrightarrow> track_transform (loop c') = Some (- offsetRef (loop c'))) \<and>
               (\<not> 0 < seqWidth c1 \<longrightarrow> track_transform (loop c') = track_transform (loop c)))) \<and>
      effect_cleanup c' =
        (if hook_args c1 = hook_args c then effect_cleanup c
         else if reducedMotion c then ResetTimestamp else CancelFrame)"
proof -
  from i have "d_le (Finite 2) (copyCount c)" by (simp add: inv_def)
  from update_frame [OF this, of e] m obtain c1 where
    c1: "update e c = Some c1" "loop c1 = loop c" "effect_args c1 = effect_args c"
      "effect_cleanup c1 = effect_cleanup c" "mounted c1" "d_le (Finite 2) (copyCount c1)"
      "\<not> 0 < seqWidth c1 \<Longrightarrow> \<not> 0 < seqWidth c"
      and rm: "reducedMotion c1 = reducedMotion c"
    by auto
  have s: "step e c = render c1" using e m c1(1) by auto
  from render_inv [OF i m c1(2-7)] show ?thesis
    unfolding s rm using c1(1) by auto
qed

lemma step_inv:
  assumes i: "inv c"
  shows "\<exists>c'. step e c = Some c' \<and> inv c'"
proof -
  consider (frame) t where "e = Frame t" | (reduced) b where "e = SetReducedMotion b"
    | (unmount) "e = Unmount"
    | (handler) "e = MouseEnter \<or> e = MouseLeave \<or> (\<exists>p. e = SetProps p) \<or> (\<exists>m. e = Measure m)"
    by (cases e) auto
  then show ?thesis
  proof cases
    case (frame t)
    from fire_frame_inv [OF i, of t] frame show ?thesis by auto
  next
    case (reduced b)
    then show ?thesis using i by (simp add: inv_def pending_ok_def offset_ok_def)
  next
    case unmount
    show ?thesis
    proof (cases "mounted c")
      case True
      from i have "pending_ok c" by (simp add: inv_def)
      from cleanup_queue [OF this] i True unmount show ?thesis
        by (simp add: unmount_def inv_def pending_ok_def offset_ok_def cleanup_fields)
    next
      case False
      then show ?thesis using i unmount by auto
    qed
  next
    case handler
    show ?thesis
    proof (cases "mounted c")
      case True
      from step_render [OF i True handler] show ?thesis by blast
    next
      case False
      then show ?thesis using i handler by auto
    qed
  qed
qed

lemma run_inv: "inv c \<Longrightarrow> \<exists>c'. run es c = Some c' \<and> inv c'"
proof (induction es arbitrary: c)
  case Nil
  then show ?case by simp
next
  case (Cons e es)
  from step_inv [OF Cons.prems, of e] obtain c1 where "step e c = Some c1" "inv c1" by blast
  with Cons.IH [of c1] show ?case by simp
qed

lemma mount_inv: "\<exists>c. mount p reduced = Some c \<and> inv c \<and> props c = p \<and> seqWidth c = 0 \<and>
   copyCount c = Finite 2 \<and> \<not> isHovered c \<and> mounted c \<and> reducedMotion c = reduced \<and>
   offsetRef (loop c) = 0 \<and> velocityRef (loop c) = 0 \<and> lastTimestampRef (loop c) = None \<and>
   (if reduced then track_transform (loop c) = Some 0 \<and> raf_queue (loop c) = []
    else track_transform (loop c) = None \<and> raf_queue (loop c) = [(0, hook_args c)]) \<and>
   effect_cleanup c = (if reduced then ResetTimestamp else CancelFrame)"
proof -
  define c0 where "c0 = \<lparr>props = p, seqWidth = 0, copyCount = Finite MIN_COPIES, isHovered = False,
        loop = initial_loop, effect_args = None, effect_cleanup = NoCleanup,
        reducedMotion = reduced, mounted = True\<rparr>"
  have "raf_queue (loop c0) = []" "mounted c0" "d_le (Finite 2) (copyCount c0)"
    "\<not> 0 < seqWidth c0 \<Longrightarrow> offsetRef (loop c0) = 0 \<and>
           (track_transform (loop c0) = None \<or> track_transform (loop c0) = Some 0)"
    by (simp_all add: c0_def initial_loop_def MIN_COPIES_def)
  from run_effect_inv [OF this] obtain c where "run_effect c0 = Some c" "inv c" 
     "props c = props c0" "seqWidth c = seqWidth c0"
      "copyCount c = copyCount c0" "isHovered c = isHovered c0" "mounted c"
      "reducedMotion c = reducedMotion c0"
      "velocityRef (loop c) = velocityRef (loop c0)"
      "lastTimestampRef (loop c) = lastTimestampRef (loop c0)"
      "(if 0 < seqWidth c0 then wrap (offsetRef (loop c0)) (seqWidth c0) = Some (offsetRef (loop c))
       else offsetRef (loop c) = offsetRef (loop c0))"
      "(if reducedMotion c0 then track_transform (loop c) = Some 0 \<and> raf_queue (loop c) = []
       else raf_queue (loop c) = [(raf_next (loop c0), hook_args c0)] \<and>
            (0 < seqWidth c0 \<longrightarrow> track_transform (loop c) = Some (- offsetRef (loop c))) \<and>
            (\<not> 0 < seqWidth c0 \<longrightarrow> track_transform (loop c) = track_transform (loop c0)))"
      "effect_cleanup c = (if reducedMotion c0 then ResetTimestamp else CancelFrame)"
    by blast
  moreover have "hook_args c = hook_args c0" using calculation by (simp add: hook_args_def)
  ultimately show ?thesis
    unfolding mount_def c0_def [symmetric]
    by (auto simp: c0_def initial_loop_def MIN_COPIES_def)
qed

lemma lifecycle_inv: "\<exists>c. lifecycle p reduced es = Some c \<and> inv c"
proof -
  from mount_inv [of p reduced] obtain c0 where "mount p reduced = Some c0" "inv c0" by blast
  with run_inv [of c0 es] show ?thesis by (auto simp: lifecycle_def)
qed

lemmas model_defs = lifecycle_def mount_def run_effect_def render_def unmount_def hook_args_def
  updateDimensions_def containerWidth_def sequenceWidth_def targetVelocity_def effectiveHoverSpeed_def useAnimationLoop_effect_def
  run_cleanup_def animate_def smooth_def deltaTime_def frame_target_def fire_frame_def
  requestAnimationFrame_def cancelAnimationFrame_def initial_loop_def wrap_def js_rem_def js_div_def
  js_trunc_def SMOOTH_TAU_def MIN_COPIES_def COPY_HEADROOM_def

section \<open>The layout along a run\<close>

lemma step_layout:
  assumes i: "inv c" and s: "step e c = Some c'" and l: "layout_from pre c"
  shows "layout_from (pre @ [e]) c'"
proof -
  consider (same) "seqWidth c' = seqWidth c" "copyCount c' = copyCount c"
    | (measured) m where "e = Measure m" "0 < sequenceWidth m"
        "seqWidth c' = of_int \<lceil>sequenceWidth m\<rceil>"
        "copyCount c' = d_max (Finite 2) (copiesNeeded (containerWidth m / sequenceWidth m))"
  proof (cases "mounted c \<and> (e = MouseEnter \<or> e = MouseLeave \<or> (\<exists>p. e = SetProps p) \<or> (\<exists>m. e = Measure m))")
    case True
    then have m: "mounted c"
      and h: "e = MouseEnter \<or> e = MouseLeave \<or> (\<exists>p. e = SetProps p) \<or> (\<exists>m. e = Measure m)"
      by simp_all
    from step_render [OF i m h] s obtain c1 where
      c1: "update e c = Some c1" "seqWidth c' = seqWidth c1" "copyCount c' = copyCount c1"
      by auto
    show ?thesis
    proof (cases e)
      case (Measure m)
      show ?thesis
      proof (cases "0 < sequenceWidth m")
        case True
        with c1 Measure have "seqWidth c' = of_int \<lceil>sequenceWidth m\<rceil>"
          "copyCount c' = d_max (Finite 2) (copiesNeeded (containerWidth m / sequenceWidth m))"
          by (auto simp: updateDimensions_cases)
        with Measure True show ?thesis by (rule measured)
      next
        case False
        with c1 Measure have "seqWidth c' = seqWidth c" "copyCount c' = copyCount c"
          by (auto simp: updateDimensions_cases)
        then show ?thesis by (rule same)
      qed
    next
      case MouseEnter
      with c1 have "seqWidth c' = seqWidth c" "copyCount c' = copyCount c"
        by (auto split: if_splits)
      then show ?thesis by (rule same)
    next
      case MouseLeave
      with c1 have "seqWidth c' = seqWidth c" "copyCount c' = copyCount c"
        by (auto split: if_splits)
      then show ?thesis by (rule same)
    next
      case (SetProps p)
      with c1 have "seqWidth c' = seqWidth c" "copyCount c' = copyCount c"
        by auto
      then show ?thesis by (rule same)
    next
      case (Frame t)
      with h show ?thesis by simp
    next
      case (SetReducedMotion b)
      with h show ?thesis by simp
    next
      case Unmount
      with h show ?thesis by simp
    qed
  next
    case False
    have "seqWidth c' = seqWidth c \<and> copyCount c' = copyCount c"
    proof (cases e)
      case (Frame t)
      with s obtain l where "c' = c\<lparr>loop := l\<rparr>" by (auto simp: bind_eq_Some_conv)
      then show ?thesis by simp
    next
      case (SetReducedMotion b)
      with s show ?thesis by auto
    next
      case Unmount
      with s show ?thesis by (auto simp: unmount_def split: if_splits)
    next
      case MouseEnter
      with s False show ?thesis by simp
    next
      case MouseLeave
      with s False show ?thesis by simp
    next
      case (SetProps p)
      with s False show ?thesis by simp
    next
      case (Measure m)
      with s False show ?thesis by simp
    qed
    then show ?thesis using same by blast
  qed
  then show ?thesis
  proof cases
    case same
    with l show ?thesis by (auto simp: layout_from_def)
  next
    case measured
    then show ?thesis by (auto simp: layout_from_def)
  qed
qed

lemma run_layout:
  assumes "inv c" "run es c = Some c'" "layout_from pre c"
  shows "layout_from (pre @ es) c'"
  using assms
proof (induction es arbitrary: c pre)
  case Nil
  then show ?case by simp
next
  case (Cons e es)
  from step_inv [OF Cons.prems(1), of e] obtain c1 where c1: "step e c = Some c1" "inv c1"
    by blast
  with Cons.prems(2) have r: "run es c1 = Some c'" by simp
  from step_layout [OF Cons.prems(1) c1(1) Cons.prems(3)] have "layout_from (pre @ [e]) c1" .
  from Cons.IH [OF c1(2) r this] show ?case by simp
qed

lemma lifecycle_layout:
  "\<exists>c. lifecycle p reduced es = Some c \<and> inv c \<and> layout_from es c"
proof -
  from mount_inv [of p reduced] obtain c0 where
    c0: "mount p reduced = Some c0" "inv c0" "seqWidth c0 = 0" "copyCount c0 = Finite 2"
    by blast
  from run_inv [OF c0(2), of es] obtain c where c: "run es c0 = Some c" "inv c" by blast
  have "layout_from [] c0" using c0 by (simp add: layout_from_def)
  from run_layout [OF c0(2) c(1) this] c c0(1) show ?thesis
    by (simp add: lifecycle_def)
qed

lemma mounted_example: "mount reverse_props False = Some mounted_example"
  by (simp add: model_defs reverse_props_def mounted_example_def)

lemma frames_frozen:
  assumes "inv c" "\<not> 0 < seqWidth c"
  shows "\<exists>c'. run (map Frame ts) c = Some c' \<and> inv c' \<and> seqWidth c' = seqWidth c \<and>
     offsetRef (loop c') = offsetRef (loop c) \<and>
     track_transform (loop c') = track_transform (loop c)"
  using assms
proof (induction ts arbitrary: c)
  case Nil
  then show ?case by simp
next
  case (Cons t ts)
  from fire_frame_inv [OF Cons.prems(1), of t] Cons.prems(2) obtain l where
    l: "fire_frame t (loop c) = Some l" "inv (c\<lparr>loop := l\<rparr>)" "offsetRef l = offsetRef (loop c)"
       "track_transform l = track_transform (loop c)"
    by (auto split: if_splits)
  have "\<not> 0 < seqWidth (c\<lparr>loop := l\<rparr>)" using Cons.prems(2) by simp
  from Cons.IH [OF l(2) this] l show ?case by auto
qed

section \<open>Smoothing\<close>


lemma run_append: "run (es @ es') c = run es c \<bind> run es'"
proof (induction es arbitrary: c)
  case Nil
  then show ?case by simp
next
  case (Cons e es)
  then show ?case by (cases "step e c") simp_all
qed





section \<open>The velocity target\<close>

lemma targetVelocity_sign:
  "targetVelocity sp dir = \<bar>sp\<bar> * (if dir = left then 1 else - 1) * sgn sp"
  by (simp add: targetVelocity_def sgn_real_def)

lemma targetVelocity_examples:
  "targetVelocity 120 left = 120" "targetVelocity (- 120) left = - 120"
  "targetVelocity 120 right = - 120"
  by (simp_all add: targetVelocity_def)

text \<open>Reversing both the speed and the direction leaves the target as it is.\<close>

lemma targetVelocity_reversed: "targetVelocity (- sp) right = targetVelocity sp left"
  by (simp add: targetVelocity_def)

lemma frame_target_spec:
  assumes "isHovered c \<longrightarrow> hoverSpeed (props c) \<noteq> None"
  shows "frame_target (hook_args c) = spec_target (isHovered c) (props c)"
  using assms
  by (auto simp: frame_target_def spec_target_def targetVelocity_sign effectiveHoverSpeed_def
      split: option.splits)

lemma pending_targets_spec:
  assumes "inv c" "isHovered c \<longrightarrow> hoverSpeed (props c) \<noteq> None"
  shows "\<forall>v \<in> set (pending_targets c). v = spec_target (isHovered c) (props c)"
  using assms frame_target_spec [OF assms(2)]
  by (auto simp: inv_def pending_ok_def pending_targets_def)

text \<open>While the props stay as they are, the hover flag is set only with a \<open>hoverSpeed\<close>.\<close>

lemma step_hover_flag:
  assumes i: "inv c" and s: "step e c = Some c'" and e: "\<forall>p. e \<noteq> SetProps p"
    and h: "isHovered c \<longrightarrow> hoverSpeed (props c) \<noteq> None"
  shows "props c' = props c \<and> (isHovered c' \<longrightarrow> hoverSpeed (props c') \<noteq> None)"
proof (cases "mounted c \<and> (e = MouseEnter \<or> e = MouseLeave \<or> (\<exists>m. e = Measure m))")
  case True
  then have m: "mounted c"
    and hd: "e = MouseEnter \<or> e = MouseLeave \<or> (\<exists>p. e = SetProps p) \<or> (\<exists>m. e = Measure m)"
    by auto
  from step_render [OF i m hd] s obtain c1 where
    c1: "update e c = Some c1" "props c' = props c1" "isHovered c' = isHovered c1"
    by auto
  have "props c1 = props c \<and> (isHovered c1 \<longrightarrow> hoverSpeed (props c1) \<noteq> None)"
  proof (cases e)
    case (Measure m)
    with c1(1) h show ?thesis by (auto simp: updateDimensions_cases split: if_splits)
  next
    case MouseEnter
    with c1(1) h show ?thesis by (auto split: if_splits)
  next
    case MouseLeave
    with c1(1) h show ?thesis by (auto split: if_splits)
  next
    case (SetProps p)
    with e show ?thesis by simp
  next
    case (Frame t)
    with True show ?thesis by simp
  next
    case (SetReducedMotion b)
    with True show ?thesis by simp
  next
    case Unmount
    with True show ?thesis by simp
  qed
  with c1 show ?thesis by auto
next
  case False
  show ?thesis
  proof (cases e)
    case (Frame t)
    with s obtain l where "c' = c\<lparr>loop := l\<rparr>" by (auto simp: bind_eq_Some_conv)
    with h show ?thesis by simp
  next
    case (SetReducedMotion b)
    with s h show ?thesis by auto
  next
    case Unmount
    with s h show ?thesis by (auto simp: unmount_def split: if_splits)
  next
    case MouseEnter
    with s False h show ?thesis by simp
  next
    case MouseLeave
    with s False h show ?thesis by simp
  next
    case (SetProps p)
    with e show ?thesis by simp
  next
    case (Measure m)
    with s False h show ?thesis by simp
  qed
qed

lemma run_hover_flag:
  assumes "inv c" "run es c = Some c'" "\<forall>p. SetProps p \<notin> set es"
    "isHovered c \<longrightarrow> hoverSpeed (props c) \<noteq> None"
  shows "inv c' \<and> props c' = props c \<and> (isHovered c' \<longrightarrow> hoverSpeed (props c') \<noteq> None)"
  using assms
proof (induction es arbitrary: c)
  case Nil
  then show ?case by simp
next
  case (Cons e es)
  from step_inv [OF Cons.prems(1), of e] obtain c1 where c1: "step e c = Some c1" "inv c1"
    by blast
  with Cons.prems(2) have r: "run es c1 = Some c'" by simp
  from Cons.prems(3) have e: "\<forall>p. e \<noteq> SetProps p" and es: "\<forall>p. SetProps p \<notin> set es" by auto
  from step_hover_flag [OF Cons.prems(1) c1(1) e Cons.prems(4)]
  have p1: "props c1 = props c" and h1: "isHovered c1 \<longrightarrow> hoverSpeed (props c1) \<noteq> None"
    by auto
  from Cons.IH [OF c1(2) r es h1] p1 show ?case by auto
qed

text \<open>With props that never change, every pending frame eases towards the target of
  the specification.\<close>

lemma fixed_props_target:
  assumes "\<forall>p'. SetProps p' \<notin> set es"
  shows "\<exists>c. lifecycle p reduced es = Some c \<and> props c = p \<and>
     (\<forall>v \<in> set (pending_targets c). v = spec_target (isHovered c) p)"
proof -
  from mount_inv [of p reduced] obtain c0 where
    c0: "mount p reduced = Some c0" "inv c0" "props c0 = p" "\<not> isHovered c0"
    by blast
  from run_inv [OF c0(2), of es] obtain c where c: "run es c0 = Some c" by blast
  from c0(4) have "isHovered c0 \<longrightarrow> hoverSpeed (props c0) \<noteq> None" by simp
  from run_hover_flag [OF c0(2) c assms this] c0(3)
  have "inv c" "props c = p" "isHovered c \<longrightarrow> hoverSpeed (props c) \<noteq> None" by auto
  with pending_targets_spec [of c] c c0(1) show ?thesis by (auto simp: lifecycle_def)
qed

section \<open>Reduced motion\<close>



lemma preferences_append:
  "run es c = Some c' \<Longrightarrow> preferences (es @ es') c = preferences es c @ preferences es' c'"
proof (induction es arbitrary: c)
  case Nil
  then show ?case by simp
next
  case (Cons e es)
  then obtain c1 where c1: "step e c = Some c1" "run es c1 = Some c'"
    by (cases "step e c") simp_all
  from Cons.IH [OF c1(2)] c1(1) show ?case by simp
qed




section \<open>Teardown\<close>

lemma run_unmounted:
  assumes "\<not> mounted c" "raf_queue (loop c) = []"
  shows "\<exists>c'. run es c = Some c' \<and> loop c' = loop c \<and> \<not> mounted c'"
  using assms
proof (induction es arbitrary: c)
  case Nil
  then show ?case by simp
next
  case (Cons e es)
  have "\<exists>c1. step e c = Some c1 \<and> loop c1 = loop c \<and> \<not> mounted c1"
    using Cons.prems by (cases e) (simp_all add: fire_frame_def)
  then obtain c1 where c1: "step e c = Some c1" "loop c1 = loop c" "\<not> mounted c1" by blast
  with Cons.prems(2) have "raf_queue (loop c1) = []" by simp
  from Cons.IH [OF c1(3) this] c1 show ?case by simp
qed

lemma observe_all_ids:
  "observe_all refs s = (s', obs) \<Longrightarrow>
     resize_listeners s' = resize_listeners s \<and> callback_calls s' = callback_calls s \<and>
     next_id s \<le> next_id s' \<and>
     (\<forall>ob \<in> set obs. next_id s \<le> ob) \<and>
     (\<exists>new. resize_observers s' = new @ resize_observers s \<and> fst ` set new = set obs)"
proof (induction refs s arbitrary: s' obs rule: observe_all.induct)
  case (1 s)
  then show ?case by simp
next
  case (2 refs s)
  then show ?case by simp
next
  case (3 el refs s)
  let ?s1 = "s\<lparr>resize_observers := (next_id s, el) # resize_observers s, next_id := Suc (next_id s)\<rparr>"
  obtain s2 obs2 where r: "observe_all refs ?s1 = (s2, obs2)" by (cases "observe_all refs ?s1")
  with "3.prems" have e: "s' = s2" "obs = next_id s # obs2" by (simp_all add: Let_def)
  from "3.IH" [OF refl r] obtain new where
    n: "resize_listeners s2 = resize_listeners s" "callback_calls s2 = callback_calls s"
      "Suc (next_id s) \<le> next_id s2" "\<forall>ob \<in> set obs2. Suc (next_id s) \<le> ob"
      "resize_observers s2 = new @ (next_id s, el) # resize_observers s" "fst ` set new = set obs2"
    by auto
  have "resize_observers s2 = (new @ [(next_id s, el)]) @ resize_observers s"
    "fst ` set (new @ [(next_id s, el)]) = set (next_id s # obs2)"
    using n(5,6) by auto
  with n e show ?case by (metis Suc_leD le_refl set_ConsD)
qed

lemma observer_teardown:
  assumes f: "\<forall>ob \<in> fst ` set (resize_observers s). ob < next_id s"
    and g: "\<forall>h \<in> set (resize_listeners s). h < next_id s"
    and e: "useResizeObserver_effect w elements s = (s', cl)"
  shows "resize_observers (run_observer_cleanup cl s') = resize_observers s \<and>
         resize_listeners (run_observer_cleanup cl s') = resize_listeners s"
proof (cases w)
  case NoWindow
  with e show ?thesis by (auto simp: useResizeObserver_effect_def run_observer_cleanup_def)
next
  case WindowWithoutResizeObserver
  with e have "s' = s\<lparr>resize_listeners := next_id s # resize_listeners s,
                 next_id := Suc (next_id s),
                 callback_calls := Suc (callback_calls s)\<rparr>" "cl = RemoveListener (next_id s)"
    by (auto simp: useResizeObserver_effect_def Let_def)
  moreover have "removeAll (next_id s) (resize_listeners s) = resize_listeners s"
    using g by (intro removeAll_id) auto
  ultimately show ?thesis by (simp add: run_observer_cleanup_def)
next
  case WindowWithResizeObserver
  obtain s1 obs where o: "observe_all elements s = (s1, obs)" by (cases "observe_all elements s")
  with e WindowWithResizeObserver have
    s': "s' = s1\<lparr>callback_calls := Suc (callback_calls s1)\<rparr>" "cl = Disconnect obs"
    by (auto simp: useResizeObserver_effect_def Let_def)
  from observe_all_ids [OF o] obtain new where
    n: "resize_listeners s1 = resize_listeners s" "\<forall>ob \<in> set obs. next_id s \<le> ob"
       "resize_observers s1 = new @ resize_observers s" "fst ` set new = set obs"
    by auto
  have a: "filter (\<lambda>(ob, el). ob \<notin> set obs) new = []"
  proof -
    have "\<And>ob el. (ob, el) \<in> set new \<Longrightarrow> ob \<in> set obs"
      using n(4) by force
    then show ?thesis by (auto simp: filter_empty_conv)
  qed
  have b: "filter (\<lambda>(ob, el). ob \<notin> set obs) (resize_observers s) = resize_observers s"
  proof (rule filter_True, clarify)
    fix ob el assume m: "(ob, el) \<in> set (resize_observers s)" and "ob \<in> set obs"
    with n(2) have "next_id s \<le> ob" by simp
    moreover from f m have "ob < next_id s" by force
    ultimately show False by simp
  qed
  show ?thesis using a b n(1,3) by (simp add: s' run_observer_cleanup_def)
qed

lemma deps_changed_args: "deps_changed c c' \<longleftrightarrow> hook_args c' \<noteq> hook_args c"
  by (auto simp: deps_changed_def hook_args_def)

lemma unmount_teardown:
  assumes i: "inv c" and m: "mounted c"
  shows "\<exists>c'. step Unmount c = Some c' \<and> raf_queue (loop c') = [] \<and>
     lastTimestampRef (loop c') = None \<and> (\<exists>c''. run es' c' = Some c'' \<and> loop c'' = loop c')"
proof -
  from i have p: "pending_ok c" and n: "effect_cleanup c \<noteq> NoCleanup"
    using m by (simp_all add: inv_def)
  have u: "step Unmount c = Some (unmount c)" using m by simp
  have q: "raf_queue (loop (unmount c)) = []" "lastTimestampRef (loop (unmount c)) = None"
    "\<not> mounted (unmount c)"
    using cleanup_queue [OF p] cleanup_timestamp [OF n] by (simp_all add: unmount_def)
  from run_unmounted [OF q(3) q(1), of es'] u q show ?thesis by auto
qed

lemma reactivation_teardown:
  assumes i: "inv c" and m: "mounted c"
    and e: "e = MouseEnter \<or> e = MouseLeave \<or> e = SetProps p' \<or> e = Measure m'"
  shows "\<exists>c'. step e c = Some c' \<and> inv c' \<and>
     (deps_changed c c' \<longrightarrow>
        lastTimestampRef (loop c') = None \<and> deltaTime (lastTimestampRef (loop c')) t = 0 \<and>
        set (raf_queue (loop c)) \<inter> set (raf_queue (loop c')) = {} \<and>
        raf_queue (loop c') =
          (if reducedMotion c then [] else [(raf_next (loop c), hook_args c')]))"
proof -
  from e have h: "e = MouseEnter \<or> e = MouseLeave \<or> (\<exists>p. e = SetProps p) \<or> (\<exists>m. e = Measure m)"
    by auto
  from step_render [OF i m h] obtain c1 c' where
    c': "update e c = Some c1" "step e c = Some c'" "inv c'"
      "props c' = props c1" "seqWidth c' = seqWidth c1" "isHovered c' = isHovered c1"
      "if hook_args c1 = hook_args c then loop c' = loop c
       else lastTimestampRef (loop c') = None \<and>
        (if reducedMotion c then track_transform (loop c') = Some 0 \<and> raf_queue (loop c') = []
         else raf_queue (loop c') = [(raf_next (loop c), hook_args c1)] \<and>
           (0 < seqWidth c1 \<longrightarrow> track_transform (loop c') = Some (- offsetRef (loop c'))) \<and>
           (\<not> 0 < seqWidth c1 \<longrightarrow> track_transform (loop c') = track_transform (loop c)))"
    by blast
  have a: "hook_args c' = hook_args c1" using c'(4-6) by (simp add: hook_args_def)
  have "lastTimestampRef (loop c') = None \<and> deltaTime (lastTimestampRef (loop c')) t = 0 \<and>
        set (raf_queue (loop c)) \<inter> set (raf_queue (loop c')) = {} \<and>
        raf_queue (loop c') =
          (if reducedMotion c then [] else [(raf_next (loop c), hook_args c')])"
    if d: "deps_changed c c'"
  proof -
    from d have ne: "hook_args c1 \<noteq> hook_args c" by (simp add: deps_changed_args a)
    with c'(7) have l: "lastTimestampRef (loop c') = None"
      "raf_queue (loop c') = (if reducedMotion c then [] else [(raf_next (loop c), hook_args c1)])"
      by (auto split: if_splits)
    from i have "raf_queue (loop c) = [] \<or> (\<exists>h. raf_queue (loop c) = [(h, hook_args c)])"
      by (auto simp: inv_def pending_ok_def)
    with l(2) ne have "set (raf_queue (loop c)) \<inter> set (raf_queue (loop c')) = {}"
      by auto
    with l a show ?thesis by (simp add: deltaTime_def)
  qed
  with c'(2,3) show ?thesis by blast
qed

section \<open>What a new activation keeps\<close>





section \<open>The image loader\<close>

lemma handleImageLoad_once: "fired_once s \<Longrightarrow> fired_once (handleImageLoad s)"
  by (auto simp: fired_once_def handleImageLoad_def onLoad_def Let_def split: if_splits)

lemma handleImageLoad_listeners [simp]:
  "load_listeners (handleImageLoad s) = load_listeners s"
  "error_listeners (handleImageLoad s) = error_listeners s"
  by (simp_all add: handleImageLoad_def onLoad_def Let_def)

lemma dispatch_once: "fired_once s \<Longrightarrow> fired_once (dispatch e s)"
proof (cases e)
  case (LoadEvent i)
  assume f: "fired_once s"
  then have "fired_once (s\<lparr>load_listeners := load_listeners s - {i}\<rparr>)"
    by (simp add: fired_once_def)
  from handleImageLoad_once [OF this] f LoadEvent show ?thesis by simp
next
  case (ErrorEvent i)
  assume f: "fired_once s"
  then have "fired_once (s\<lparr>error_listeners := error_listeners s - {i}\<rparr>)"
    by (simp add: fired_once_def)
  from handleImageLoad_once [OF this] f ErrorEvent show ?thesis by simp
qed

lemma dispatch_all_once: "fired_once s \<Longrightarrow> fired_once (dispatch_all es s)"
  by (induction es arbitrary: s) (simp_all add: dispatch_once)

lemma register_once: "fired_once s \<Longrightarrow> fired_once (register_images imgs i s)"
proof (induction imgs arbitrary: i s)
  case Nil
  then show ?case by simp
next
  case (Cons b imgs)
  have "fired_once (if b then handleImageLoad s
        else s\<lparr>load_listeners := insert i (load_listeners s),
               error_listeners := insert i (error_listeners s)\<rparr>)"
    using Cons.prems handleImageLoad_once [OF Cons.prems] by (simp add: fired_once_def)
  from Cons.IH [OF this] show ?case by simp
qed

lemma effect_once: "fired_once (useImageLoader_effect container initial_loader)"
proof (cases container)
  case None
  then show ?thesis
    by (simp add: useImageLoader_effect_def onLoad_def initial_loader_def fired_once_def)
next
  case (Some images)
  show ?thesis
  proof (cases "images = []")
    case True
    with Some show ?thesis
      by (simp add: useImageLoader_effect_def onLoad_def initial_loader_def fired_once_def)
  next
    case False
    have "fired_once (initial_loader\<lparr>remainingImages := int (length images)\<rparr>)"
      using False by (simp add: fired_once_def initial_loader_def)
    from register_once [OF this] Some False show ?thesis
      by (simp add: useImageLoader_effect_def)
  qed
qed

text \<open>The state after the registration loop.\<close>

lemma register_images_state:
  assumes "int (length imgs) \<le> remainingImages s"
  shows "remainingImages (register_images imgs i s)
           = remainingImages s - int (length (filter (\<lambda>b. b) imgs)) \<and>
         load_listeners (register_images imgs i s)
           = load_listeners s \<union> {i + j |j. j < length imgs \<and> \<not> imgs ! j} \<and>
         error_listeners (register_images imgs i s)
           = error_listeners s \<union> {i + j |j. j < length imgs \<and> \<not> imgs ! j} \<and>
         onLoad_calls (register_images imgs i s)
           = onLoad_calls s +
             (if filter (\<lambda>b. b) imgs \<noteq> [] \<and>
                 remainingImages s = int (length (filter (\<lambda>b. b) imgs)) then 1 else 0)"
  using assms
proof (induction imgs arbitrary: i s)
  case Nil
  then show ?case by simp
next
  case (Cons b imgs)
  have shift: "{i + j |j. j < length (b # imgs) \<and> \<not> (b # imgs) ! j}
      = (if b then {} else {i}) \<union> {Suc i + j |j. j < length imgs \<and> \<not> imgs ! j}"
  proof -
    have "{i + j |j. j < length (b # imgs) \<and> \<not> (b # imgs) ! j}
       = (\<lambda>j. i + j) ` {j. j < Suc (length imgs) \<and> \<not> (b # imgs) ! j}" by auto
    also have "{j. j < Suc (length imgs) \<and> \<not> (b # imgs) ! j}
       = (if b then {} else {0}) \<union> Suc ` {j. j < length imgs \<and> \<not> imgs ! j}"
      by (auto simp: less_Suc_eq_0_disj image_iff)
    also have "(\<lambda>j. i + j) ` ((if b then {} else {0}) \<union> Suc ` {j. j < length imgs \<and> \<not> imgs ! j})
       = (if b then {} else {i}) \<union> {Suc i + j |j. j < length imgs \<and> \<not> imgs ! j}"
      by (auto simp: image_iff)
    finally show ?thesis .
  qed
  have fl: "length (filter (\<lambda>b. b) imgs) \<le> length imgs" by simp
  show ?case
  proof (cases b)
    case True
    let ?s1 = "handleImageLoad s"
    have r1: "remainingImages ?s1 = remainingImages s - 1"
      by (simp add: handleImageLoad_def onLoad_def Let_def)
    have c1: "onLoad_calls ?s1 = onLoad_calls s + (if remainingImages s = 1 then 1 else 0)"
      by (simp add: handleImageLoad_def onLoad_def Let_def)
    have le: "int (length imgs) \<le> remainingImages ?s1" using Cons.prems r1 by simp
    from Cons.IH [OF le, of "Suc i"] True r1 c1 shift Cons.prems fl show ?thesis
      by (auto simp: Let_def)
  next
    case False
    let ?s1 = "s\<lparr>load_listeners := insert i (load_listeners s),
               error_listeners := insert i (error_listeners s)\<rparr>"
    have le: "int (length imgs) \<le> remainingImages ?s1" using Cons.prems by simp
    from Cons.IH [OF le, of "Suc i"] False shift Cons.prems fl show ?thesis
      by auto
  qed
qed

text \<open>Events that settle images whose listeners are still registered, one event each.\<close>

lemma dispatch_all_state:
  assumes "distinct (map event_image es)"
    and "set (map event_image es) \<subseteq> load_listeners s \<inter> error_listeners s"
    and "remainingImages s = int (length es) + d" and "0 \<le> d"
  shows "remainingImages (dispatch_all es s) = d \<and>
         onLoad_calls (dispatch_all es s)
           = onLoad_calls s + (if d = 0 \<and> es \<noteq> [] then 1 else 0)"
  using assms
proof (induction es arbitrary: s)
  case Nil
  then show ?case by simp
next
  case (Cons e es)
  let ?i = "event_image e"
  from Cons.prems(1) have nd: "?i \<notin> set (map event_image es)" and
    di: "distinct (map event_image es)" by simp_all
  from Cons.prems(2) have mem: "?i \<in> load_listeners s" "?i \<in> error_listeners s"
    and sub: "set (map event_image es) \<subseteq> load_listeners s \<inter> error_listeners s" by auto
  define s1 where "s1 = dispatch e s"
  have r1: "remainingImages s1 = remainingImages s - 1"
    and c1: "onLoad_calls s1 = onLoad_calls s + (if remainingImages s = 1 then 1 else 0)"
    and l1: "load_listeners s1 \<supseteq> load_listeners s - {?i}"
            "error_listeners s1 \<supseteq> error_listeners s - {?i}"
    using mem by (cases e; auto simp: s1_def handleImageLoad_def onLoad_def Let_def)+
  have sub1: "set (map event_image es) \<subseteq> load_listeners s1 \<inter> error_listeners s1"
    using sub nd l1 by blast
  have rem1: "remainingImages s1 = int (length es) + d" using r1 Cons.prems(3) by simp
  from Cons.IH [OF di sub1 rem1 Cons.prems(4)] c1 Cons.prems(3,4) show ?case
    by (auto simp: s1_def)
qed

lemma incomplete_card:
  "card (incomplete images) = length images - length (filter (\<lambda>b. b) images)"
proof -
  have "card (incomplete images) = length (filter (\<lambda>b. \<not> b) images)"
    by (simp add: incomplete_def length_filter_conv_card)
  moreover have "length (filter (\<lambda>b. b) images) + length (filter (\<lambda>b. \<not> b) images) = length images"
    by (rule sum_length_filter_compl)
  ultimately show ?thesis by simp
qed

lemma effect_state:
  assumes "images \<noteq> []"
  shows "remainingImages (useImageLoader_effect (Some images) initial_loader)
           = int (card (incomplete images)) \<and>
         load_listeners (useImageLoader_effect (Some images) initial_loader) = incomplete images \<and>
         error_listeners (useImageLoader_effect (Some images) initial_loader) = incomplete images \<and>
         onLoad_calls (useImageLoader_effect (Some images) initial_loader)
           = (if incomplete images = {} then 1 else 0)"
proof -
  let ?s = "initial_loader\<lparr>remainingImages := int (length images)\<rparr>"
  have le: "int (length images) \<le> remainingImages ?s" by simp
  have fl: "length (filter (\<lambda>b. b) images) \<le> length images" by simp
  have fin: "finite (incomplete images)" by (simp add: incomplete_def)
  have e: "incomplete images = {} \<longleftrightarrow> length (filter (\<lambda>b. b) images) = length images"
  proof
    assume "incomplete images = {}"
    with incomplete_card [of images] have "length images \<le> length (filter (\<lambda>b. b) images)"
      by simp
    then show "length (filter (\<lambda>b. b) images) = length images"
      by (rule le_antisym [OF length_filter_le])
  next
    assume "length (filter (\<lambda>b. b) images) = length images"
    with incomplete_card [of images] have "card (incomplete images) = 0" by simp
    with fin show "incomplete images = {}" by simp
  qed
  have ne: "length (filter (\<lambda>b. b) images) = length images \<Longrightarrow> filter (\<lambda>b. b) images \<noteq> []"
    using assms by auto
  from register_images_state [OF le, of 0] assms incomplete_card [of images] fl e ne
  show ?thesis
    by (auto simp: useImageLoader_effect_def initial_loader_def incomplete_def)
qed

lemma settled_once:
  assumes d: "distinct (map event_image es)" and s: "set (map event_image es) = incomplete images"
    and n: "images \<noteq> []"
  shows "onLoad_calls (dispatch_all es (useImageLoader_effect (Some images) initial_loader)) = 1 \<and>
     (\<forall>es1 es2. es = es1 @ es2 \<and> es2 \<noteq> [] \<longrightarrow>
        onLoad_calls (dispatch_all es1 (useImageLoader_effect (Some images) initial_loader)) = 0)"
proof -
  let ?s0 = "useImageLoader_effect (Some images) initial_loader"
  note st = effect_state [OF n]
  have len: "length es = card (incomplete images)"
    using distinct_card [OF d] s by simp
  have sub: "set (map event_image es) \<subseteq> load_listeners ?s0 \<inter> error_listeners ?s0"
    using st s by simp
  have rem: "remainingImages ?s0 = int (length es) + 0" using st len by simp
  from dispatch_all_state [OF d sub rem] have
    a: "onLoad_calls (dispatch_all es ?s0) = onLoad_calls ?s0 + (if es \<noteq> [] then 1 else 0)"
    by simp
  have e: "es = [] \<longleftrightarrow> incomplete images = {}" using s by auto
  have one: "onLoad_calls (dispatch_all es ?s0) = 1" using a st e by auto
  have pre: "onLoad_calls (dispatch_all es1 ?s0) = 0" if p: "es = es1 @ es2" "es2 \<noteq> []" for es1 es2
  proof -
    from d p(1) have d1: "distinct (map event_image es1)" by simp
    from sub p(1) have sub1: "set (map event_image es1) \<subseteq> load_listeners ?s0 \<inter> error_listeners ?s0"
      by auto
    have rem1: "remainingImages ?s0 = int (length es1) + int (length es2)"
      using rem p(1) by simp
    have pos: "0 \<le> int (length es2)" by simp
    from dispatch_all_state [OF d1 sub1 rem1 pos] p(2)
    have "onLoad_calls (dispatch_all es1 ?s0) = onLoad_calls ?s0" by simp
    moreover from p e have "incomplete images \<noteq> {}" by auto
    ultimately show ?thesis using st by simp
  qed
  from one pre show ?thesis by blast
qed

lemma all_failed: "onLoad_calls (dispatch_all (map ErrorEvent [0..<n])
     (useImageLoader_effect (Some (replicate n False)) initial_loader)) = 1"
proof (cases "n = 0")
  case True
  then show ?thesis by (simp add: useImageLoader_effect_def onLoad_def initial_loader_def)
next
  case False
  have m: "map event_image (map ErrorEvent [0..<n]) = [0..<n]"
    by (simp add: comp_def)
  have d: "distinct (map event_image (map ErrorEvent [0..<n]))" unfolding m by simp
  have s: "set (map event_image (map ErrorEvent [0..<n])) = incomplete (replicate n False)"
    unfolding m by (auto simp: incomplete_def)
  from False have "replicate n False \<noteq> []" by simp
  from settled_once [OF d s this] show ?thesis by simp
qed

section \<open>The claims\<close>

text \<open>
  C1, as amended. On doubles, the offset that a frame stores over a positive finite
  width \<open>w\<close> is \<open>((offset + velocity * dt) % w + w) % w\<close>. Whatever the offset, the
  velocity (of either sign) and the time step: when the two sums of the expression,
  \<open>offset + velocity * dt\<close> and the first remainder plus \<open>w\<close>, are finite, the stored
  offset is a number in \<open>[0, w)\<close>; when one of them is not, it is NaN. No sum overflows
  while the offset, the displacement \<open>velocity * dt\<close> and the width are at most \<open>2^1022\<close>
  in magnitude. The normalisation of line 117, the same expression on the stored offset,
  is in \<open>[0, w)\<close> under the same condition.
\<close>

theorem C1_offset_in_range:
  "nextOffset offset velocity dt (Finite w) =
     d_rem (d_add (d_rem (d_add offset (d_mul velocity dt)) (Finite w)) (Finite w)) (Finite w) \<and>
   (0 < w \<and> is_finite (d_add offset (d_mul velocity dt)) \<and>
    is_finite (d_add (d_rem (d_add offset (d_mul velocity dt)) (Finite w)) (Finite w)) \<longrightarrow>
      (\<exists>r. nextOffset offset velocity dt (Finite w) = Finite r \<and> 0 \<le> r \<and> r < w)) \<and>
   (\<not> is_finite (d_add offset (d_mul velocity dt)) \<or>
    \<not> is_finite (d_add (d_rem (d_add offset (d_mul velocity dt)) (Finite w)) (Finite w)) \<longrightarrow>
      nextOffset offset velocity dt (Finite w) = NaN) \<and>
   (\<bar>off\<bar> \<le> 2 ^ 1022 \<and> \<bar>vel * secs\<bar> \<le> 2 ^ 1022 \<and> 0 < w \<and> w \<le> 2 ^ 1022 \<longrightarrow>
      (\<exists>r. nextOffset (Finite off) (Finite vel) (Finite secs) (Finite w) = Finite r \<and>
           0 \<le> r \<and> r < w)) \<and>
   (0 < w \<and> is_finite (d_add (d_rem x (Finite w)) (Finite w)) \<longrightarrow>
      (\<exists>r. d_wrap x (Finite w) = Finite r \<and> 0 \<le> r \<and> r < w))"
proof (intro conjI impI)
  show "nextOffset offset velocity dt (Finite w) =
     d_rem (d_add (d_rem (d_add offset (d_mul velocity dt)) (Finite w)) (Finite w)) (Finite w)"
    by (simp add: nextOffset_def d_wrap_def)
next
  assume "0 < w \<and> is_finite (d_add offset (d_mul velocity dt)) \<and>
    is_finite (d_add (d_rem (d_add offset (d_mul velocity dt)) (Finite w)) (Finite w))"
  then have w: "0 < w"
    and f: "is_finite (d_add (d_rem (d_add offset (d_mul velocity dt)) (Finite w)) (Finite w))"
    by simp_all
  from d_wrap_range [OF w f]
  show "\<exists>r. nextOffset offset velocity dt (Finite w) = Finite r \<and> 0 \<le> r \<and> r < w"
    by (simp add: nextOffset_def)
next
  assume "\<not> is_finite (d_add offset (d_mul velocity dt)) \<or>
    \<not> is_finite (d_add (d_rem (d_add offset (d_mul velocity dt)) (Finite w)) (Finite w))"
  from d_wrap_NaN [OF this] show "nextOffset offset velocity dt (Finite w) = NaN"
    by (simp add: nextOffset_def)
next
  assume "\<bar>off\<bar> \<le> 2 ^ 1022 \<and> \<bar>vel * secs\<bar> \<le> 2 ^ 1022 \<and> 0 < w \<and> w \<le> 2 ^ 1022"
  then have a: "\<bar>off\<bar> \<le> 2 ^ 1022" "\<bar>vel * secs\<bar> \<le> 2 ^ 1022" "0 < w" "w \<le> 2 ^ 1022"
    by simp_all
  from nextOffset_finite [OF a]
  have "is_finite (d_add (d_rem (d_add (Finite off) (d_mul (Finite vel) (Finite secs))) (Finite w))
          (Finite w))"
    by simp
  from d_wrap_range [OF a(3) this]
  show "\<exists>r. nextOffset (Finite off) (Finite vel) (Finite secs) (Finite w) = Finite r \<and>
           0 \<le> r \<and> r < w"
    by (simp add: nextOffset_def)
next
  assume "0 < w \<and> is_finite (d_add (d_rem x (Finite w)) (Finite w))"
  then have w: "0 < w" and f: "is_finite (d_add (d_rem x (Finite w)) (Finite w))" by simp_all
  from d_wrap_range [OF w f] show "\<exists>r. d_wrap x (Finite w) = Finite r \<and> 0 \<le> r \<and> r < w" .
qed

theorem C1_offset_in_range_witness:
  "0 < (200 :: real) \<and>
   is_finite (d_add (Finite 5) (d_mul (Finite (- 120)) (Finite (1 / 8)))) \<and>
   is_finite (d_add (d_rem (d_add (Finite 5) (d_mul (Finite (- 120)) (Finite (1 / 8)))) (Finite 200))
                (Finite 200)) \<and>
   (\<exists>r. nextOffset (Finite 5) (Finite (- 120)) (Finite (1 / 8)) (Finite 200) = Finite r \<and>
        0 \<le> r \<and> r < 200) \<and>
   nextOffset (Finite 5) (Finite (- 120)) (Finite (1 / 8)) (Finite 200) = Finite 190 \<and>
   \<not> is_finite (d_add (Finite 0) (d_mul (Finite (2 ^ 1023)) (Finite 2))) \<and>
   nextOffset (Finite 0) (Finite (2 ^ 1023)) (Finite 2) (Finite 200) = NaN \<and>
   \<bar>195 :: real\<bar> \<le> 2 ^ 1022 \<and> \<bar>120 * (1 / 8) :: real\<bar> \<le> 2 ^ 1022 \<and> (200 :: real) \<le> 2 ^ 1022 \<and>
   (\<exists>r. nextOffset (Finite 195) (Finite 120) (Finite (1 / 8)) (Finite 200) = Finite r \<and>
        0 \<le> r \<and> r < 200) \<and>
   is_finite (d_add (d_rem (Finite (- 5)) (Finite 200)) (Finite 200)) \<and>
   (\<exists>r. d_wrap (Finite (- 5)) (Finite 200) = Finite r \<and> 0 \<le> r \<and> r < 200)"
proof -
  have a: "d_add (Finite 5) (d_mul (Finite (- 120)) (Finite (1 / 8))) = Finite (- 10)"
    "d_add (d_rem (Finite (- 10)) (Finite 200)) (Finite 200) = Finite 190"
    "d_add (d_rem (Finite (- 5)) (Finite 200)) (Finite 200) = Finite 195"
    by (simp_all add: to_double_numeral to_double_neg_numeral js_rem_small_neg)
  have b: "nextOffset (Finite 5) (Finite (- 120)) (Finite (1 / 8)) (Finite 200) = Finite 190"
    unfolding nextOffset_def d_wrap_def a by (simp add: js_rem_small)
  have c: "\<not> is_finite (d_add (Finite 0) (d_mul (Finite (2 ^ 1023)) (Finite 2)))"
    unfolding overflow_example by simp
  have d: "\<bar>195 :: real\<bar> \<le> 2 ^ 1022" "\<bar>120 * (1 / 8) :: real\<bar> \<le> 2 ^ 1022" "(200 :: real) \<le> 2 ^ 1022"
    by simp_all
  note t = C1_offset_in_range [where offset = "Finite 5" and velocity = "Finite (- 120)"
      and dt = "Finite (1 / 8)" and w = 200 and off = 195 and vel = 120 and secs = "1 / 8"
      and x = "Finite (- 5)"]
  note u = C1_offset_in_range [where offset = "Finite 0" and velocity = "Finite (2 ^ 1023)"
      and dt = "Finite 2" and w = 200]
  have fin: "is_finite (d_add (Finite 5) (d_mul (Finite (- 120)) (Finite (1 / 8))))"
    "is_finite (d_add (d_rem (d_add (Finite 5) (d_mul (Finite (- 120)) (Finite (1 / 8)))) (Finite 200))
                (Finite 200))"
    "is_finite (d_add (d_rem (Finite (- 5)) (Finite 200)) (Finite 200))"
    unfolding a by simp_all
  have pos: "0 < (200 :: real)" by simp
  from t pos fin(1,2)
  have e: "\<exists>r. nextOffset (Finite 5) (Finite (- 120)) (Finite (1 / 8)) (Finite 200) = Finite r \<and>
        0 \<le> r \<and> r < 200" by blast
  from u c have f: "nextOffset (Finite 0) (Finite (2 ^ 1023)) (Finite 2) (Finite 200) = NaN" by blast
  from t d pos
  have g: "\<exists>r. nextOffset (Finite 195) (Finite 120) (Finite (1 / 8)) (Finite 200) = Finite r \<and>
        0 \<le> r \<and> r < 200" by blast
  from t pos fin(3)
  have h: "\<exists>r. d_wrap (Finite (- 5)) (Finite 200) = Finite r \<and> 0 \<le> r \<and> r < 200" by blast
  from pos fin b c d e f g h show ?thesis by blast
qed

text \<open>
  C1 as stated fails. At the velocity \<open>2^1023\<close> (about \<open>9e307\<close> pixels per second, which
  the velocity reaches under a \<open>speed\<close> of that size) and a time step of two seconds the
  product \<open>velocity * dt\<close> overflows to infinity, and the frame stores NaN over the width
  200. Over the width \<open>3 * 2^1022\<close> and a time step of one second the first sum is finite
  and the second one overflows.
\<close>

theorem C1_offset_overflow:
  "to_double (2 ^ 1023) = Finite (2 ^ 1023) \<and>
   d_mul (Finite (2 ^ 1023)) (Finite 2) = PosInf \<and>
   nextOffset (Finite 0) (Finite (2 ^ 1023)) (Finite 2) (Finite 200) = NaN \<and>
   is_finite (d_add (Finite 0) (d_mul (Finite (2 ^ 1023)) (Finite 1))) \<and>
   nextOffset (Finite 0) (Finite (2 ^ 1023)) (Finite 1) (Finite (3 * 2 ^ 1022)) = NaN"
proof -
  have a: "to_double (2 ^ 1023) = Finite (2 ^ 1023)"
    using to_double_pow2 [of 1023] by simp
  have b: "d_mul (Finite (2 ^ 1023)) (Finite 2) = PosInf"
    using overflow_example by simp
  have c: "nextOffset (Finite 0) (Finite (2 ^ 1023)) (Finite 2) (Finite 200) = NaN"
    unfolding nextOffset_def d_wrap_def b by simp
  have "d_mul (Finite (2 ^ 1023)) (Finite 1) = Finite (2 ^ 1023)"
    using a by simp
  then have s: "d_add (Finite 0) (d_mul (Finite (2 ^ 1023)) (Finite 1)) = Finite (2 ^ 1023)"
    using a by simp
  have r: "js_rem (2 ^ 1023) (3 * 2 ^ 1022) = Some (2 ^ 1023)"
    by (rule js_rem_small) simp_all
  have "(2 :: real) ^ 1024 \<le> 2 ^ 1023 + 3 * 2 ^ 1022" by simp
  from to_double_overflow [OF this]
  have ov: "d_add (d_rem (Finite (2 ^ 1023)) (Finite (3 * 2 ^ 1022))) (Finite (3 * 2 ^ 1022)) = PosInf"
    using r by simp
  have d: "nextOffset (Finite 0) (Finite (2 ^ 1023)) (Finite 1) (Finite (3 * 2 ^ 1022)) = NaN"
    unfolding nextOffset_def d_wrap_def s ov by simp
  from a b c d s show ?thesis by simp
qed

text \<open>
  C3, as amended. A layout recomputation that measures a positive sequence width stores
  its ceiling and sets \<open>copyCount\<close> to \<open>max(2, ceil(q) + 2)\<close> in double arithmetic, where
  \<open>q\<close> is the quotient \<open>containerWidth / sequenceWidth\<close> rounded to the nearest double;
  the result is at least 2. For a quotient from 0 to \<open>2^52\<close> it is the number
  \<open>max(2, ceil(q) + 2)\<close>, and \<open>ceil(q)\<close> is the ceiling of the exact quotient or one less.
  A recomputation that measures the width 0 changes nothing. Hence in every reachable
  state \<open>copyCount\<close> is at least 2, and when the stored width is positive, the stored
  width and \<open>copyCount\<close> come from a measurement of the run with a positive width, so
  that \<open>copyCount\<close> is at least \<open>ceil(containerWidth / sequenceWidth) + 1\<close> for it when
  the quotient is in that range.
\<close>

theorem C3_copy_count:
  "(0 < sequenceWidth m \<longrightarrow>
      updateDimensions m c =
        Some (c\<lparr>seqWidth := of_int \<lceil>sequenceWidth m\<rceil>,
                copyCount := d_max (Finite 2) (copiesNeeded (containerWidth m / sequenceWidth m))\<rparr>) \<and>
      d_le (Finite 2) (d_max (Finite 2) (copiesNeeded (containerWidth m / sequenceWidth m)))) \<and>
   (0 \<le> q \<and> q \<le> 2 ^ 52 \<longrightarrow>
      d_max (Finite 2) (copiesNeeded q) = Finite (of_int (max 2 (\<lceil>nearest q\<rceil> + 2))) \<and>
      \<lceil>q\<rceil> - 1 \<le> \<lceil>nearest q\<rceil> \<and> \<lceil>nearest q\<rceil> \<le> \<lceil>q\<rceil>) \<and>
   (sequenceWidth m0 = 0 \<longrightarrow> updateDimensions m0 c = Some c) \<and>
   (\<exists>c'. lifecycle p reduced es = Some c' \<and> d_le (Finite 2) (copyCount c') \<and>
      (0 < seqWidth c' \<longrightarrow>
        (\<exists>m'. Measure m' \<in> set es \<and> 0 < sequenceWidth m' \<and>
            seqWidth c' = of_int \<lceil>sequenceWidth m'\<rceil> \<and>
            copyCount c' = d_max (Finite 2) (copiesNeeded (containerWidth m' / sequenceWidth m')) \<and>
            (0 \<le> containerWidth m' \<and> containerWidth m' / sequenceWidth m' \<le> 2 ^ 52 \<longrightarrow>
               d_le (Finite (of_int (\<lceil>containerWidth m' / sequenceWidth m'\<rceil> + 1)))
                 (copyCount c')))))"
proof (intro conjI impI)
  assume "0 \<le> q \<and> q \<le> 2 ^ 52"
  then have q: "0 \<le> q" "q \<le> 2 ^ 52" by simp_all
  have "(2::real) ^ 52 < 2 ^ 53" by simp
  with q(2) have q53: "q < 2 ^ 53" by linarith
  from copies_value [OF q]
  show "d_max (Finite 2) (copiesNeeded q) = Finite (of_int (max 2 (\<lceil>nearest q\<rceil> + 2)))" .
  from nearest_ceiling [OF q(1) q53]
  show "\<lceil>q\<rceil> - 1 \<le> \<lceil>nearest q\<rceil>" and "\<lceil>nearest q\<rceil> \<le> \<lceil>q\<rceil>" .
next
  from lifecycle_layout [of p reduced es] obtain c' where
    c': "lifecycle p reduced es = Some c'" "inv c'" "layout_from es c'" by blast
  have "d_le (Finite 2) (copyCount c')" using c'(2) by (simp add: inv_def)
  moreover have "\<exists>m'. Measure m' \<in> set es \<and> 0 < sequenceWidth m' \<and>
            seqWidth c' = of_int \<lceil>sequenceWidth m'\<rceil> \<and>
            copyCount c' = d_max (Finite 2) (copiesNeeded (containerWidth m' / sequenceWidth m')) \<and>
            (0 \<le> containerWidth m' \<and> containerWidth m' / sequenceWidth m' \<le> 2 ^ 52 \<longrightarrow>
               d_le (Finite (of_int (\<lceil>containerWidth m' / sequenceWidth m'\<rceil> + 1)))
                 (copyCount c'))" if "0 < seqWidth c'"
  proof -
    from c'(3) that obtain m' where
      m': "Measure m' \<in> set es" "0 < sequenceWidth m'"
        "seqWidth c' = of_int \<lceil>sequenceWidth m'\<rceil>"
        "copyCount c' = d_max (Finite 2) (copiesNeeded (containerWidth m' / sequenceWidth m'))"
      by (auto simp: layout_from_def)
    have "d_le (Finite (of_int (\<lceil>containerWidth m' / sequenceWidth m'\<rceil> + 1))) (copyCount c')"
      if b: "0 \<le> containerWidth m' \<and> containerWidth m' / sequenceWidth m' \<le> 2 ^ 52"
    proof -
      let ?q = "containerWidth m' / sequenceWidth m'"
      from b m'(2) have q: "0 \<le> ?q" "?q \<le> 2 ^ 52" by simp_all
      have "(2::real) ^ 52 < 2 ^ 53" by simp
      with q(2) have q53: "?q < 2 ^ 53" by linarith
      from nearest_ceiling(1) [OF q(1) q53] have "\<lceil>?q\<rceil> + 1 \<le> max 2 (\<lceil>nearest ?q\<rceil> + 2)" by simp
      then have "real_of_int (\<lceil>?q\<rceil> + 1) \<le> of_int (max 2 (\<lceil>nearest ?q\<rceil> + 2))"
        by (simp only: of_int_le_iff)
      then show ?thesis unfolding m'(4) copies_value [OF q] by simp
    qed
    with m' show ?thesis by blast
  qed
  ultimately show "\<exists>c'. lifecycle p reduced es = Some c' \<and> d_le (Finite 2) (copyCount c') \<and>
      (0 < seqWidth c' \<longrightarrow>
        (\<exists>m'. Measure m' \<in> set es \<and> 0 < sequenceWidth m' \<and>
            seqWidth c' = of_int \<lceil>sequenceWidth m'\<rceil> \<and>
            copyCount c' = d_max (Finite 2) (copiesNeeded (containerWidth m' / sequenceWidth m')) \<and>
            (0 \<le> containerWidth m' \<and> containerWidth m' / sequenceWidth m' \<le> 2 ^ 52 \<longrightarrow>
               d_le (Finite (of_int (\<lceil>containerWidth m' / sequenceWidth m'\<rceil> + 1)))
                 (copyCount c'))))"
    using c'(1) by blast
qed (simp_all add: updateDimensions_cases copies_at_least)

theorem C3_copy_count_witness:
  "0 < sequenceWidth wide_container \<and>
   updateDimensions wide_container mounted_example =
     Some (mounted_example\<lparr>seqWidth := 200, copyCount := Finite 4\<rparr>) \<and>
   (0 :: real) \<le> 5 / 4 \<and> (5 / 4 :: real) \<le> 2 ^ 52 \<and>
   d_max (Finite 2) (copiesNeeded (5 / 4)) = Finite 4 \<and>
   sequenceWidth empty_sequence = 0 \<and>
   updateDimensions empty_sequence mounted_example = Some mounted_example \<and>
   (\<exists>c'. lifecycle reverse_props False [Measure wide_container, Measure empty_sequence] = Some c' \<and>
      d_le (Finite 2) (copyCount c') \<and> 0 < seqWidth c' \<and>
      (\<exists>m'. Measure m' \<in> set [Measure wide_container, Measure empty_sequence] \<and>
          0 < sequenceWidth m' \<and>
          seqWidth c' = of_int \<lceil>sequenceWidth m'\<rceil> \<and>
          copyCount c' = d_max (Finite 2) (copiesNeeded (containerWidth m' / sequenceWidth m')) \<and>
          0 \<le> containerWidth m' \<and> containerWidth m' / sequenceWidth m' \<le> 2 ^ 52 \<and>
          d_le (Finite (of_int (\<lceil>containerWidth m' / sequenceWidth m'\<rceil> + 1))) (copyCount c')))"
proof -
  have a: "0 < sequenceWidth wide_container" "sequenceWidth empty_sequence = 0"
    by (simp_all add: sequenceWidth_def wide_container_def empty_sequence_def)
  have b: "containerWidth wide_container / sequenceWidth wide_container = 5 / 4"
    "\<lceil>sequenceWidth wide_container\<rceil> = 200"
    by (simp_all add: sequenceWidth_def containerWidth_def wide_container_def)
  have q: "(0 :: real) \<le> 5 / 4" "(5 / 4 :: real) \<le> 2 ^ 52" by simp_all
  have c: "\<exists>c. lifecycle reverse_props False [Measure wide_container, Measure empty_sequence] = Some c \<and>
        seqWidth c = 200"
    by (simp add: model_defs reverse_props_def wide_container_def empty_sequence_def Let_def)
  note t = C3_copy_count [where m = wide_container and c = mounted_example and ?m0.0 = empty_sequence
      and p = reverse_props and reduced = False and q = "5 / 4"
      and es = "[Measure wide_container, Measure empty_sequence]"]
  from t q have v: "d_max (Finite 2) (copiesNeeded (5 / 4)) = Finite 4"
    by (simp add: nearest_5_4)
  from t a b v have u: "updateDimensions wide_container mounted_example =
     Some (mounted_example\<lparr>seqWidth := 200, copyCount := Finite 4\<rparr>)"
     "updateDimensions empty_sequence mounted_example = Some mounted_example"
    by simp_all
  from t c obtain c' m' where
    c': "lifecycle reverse_props False [Measure wide_container, Measure empty_sequence] = Some c'"
      "d_le (Finite 2) (copyCount c')" "0 < seqWidth c'"
    and m': "Measure m' \<in> set [Measure wide_container, Measure empty_sequence]"
      "0 < sequenceWidth m'" "seqWidth c' = of_int \<lceil>sequenceWidth m'\<rceil>"
      "copyCount c' = d_max (Finite 2) (copiesNeeded (containerWidth m' / sequenceWidth m'))"
      "0 \<le> containerWidth m' \<and> containerWidth m' / sequenceWidth m' \<le> 2 ^ 52 \<longrightarrow>
         d_le (Finite (of_int (\<lceil>containerWidth m' / sequenceWidth m'\<rceil> + 1))) (copyCount c')"
    by fastforce
  from m'(1,2) a(2) have "m' = wide_container" by auto
  then have r: "0 \<le> containerWidth m'" "containerWidth m' / sequenceWidth m' \<le> 2 ^ 52"
    by (simp_all add: sequenceWidth_def containerWidth_def wide_container_def)
  with m'(5) have "d_le (Finite (of_int (\<lceil>containerWidth m' / sequenceWidth m'\<rceil> + 1))) (copyCount c')"
    by blast
  with c' m'(1-4) r have l: "\<exists>c'. lifecycle reverse_props False [Measure wide_container, Measure empty_sequence] = Some c' \<and>
      d_le (Finite 2) (copyCount c') \<and> 0 < seqWidth c' \<and>
      (\<exists>m'. Measure m' \<in> set [Measure wide_container, Measure empty_sequence] \<and>
          0 < sequenceWidth m' \<and>
          seqWidth c' = of_int \<lceil>sequenceWidth m'\<rceil> \<and>
          copyCount c' = d_max (Finite 2) (copiesNeeded (containerWidth m' / sequenceWidth m')) \<and>
          0 \<le> containerWidth m' \<and> containerWidth m' / sequenceWidth m' \<le> 2 ^ 52 \<and>
          d_le (Finite (of_int (\<lceil>containerWidth m' / sequenceWidth m'\<rceil> + 1))) (copyCount c'))"
    by blast
  from a q v u l show ?thesis by blast
qed

text \<open>
  C3 as stated fails. The container is 1000 pixels wide and the sequence measures
  \<open>333.3333333333333\<close>, the double \<open>5864062014805333 / 2^44\<close>. The exact quotient is a
  little more than 3, its ceiling is 4 and the claim gives 6 copies; the quotient of the
  two doubles is rounded to 3, and \<open>copyCount\<close> becomes 5.
\<close>

theorem C3_rounded_quotient:
  "to_double (sequenceWidth fractional_width) = Finite (sequenceWidth fractional_width) \<and>
   0 < sequenceWidth fractional_width \<and>
   map_option copyCount (updateDimensions fractional_width mounted_example) = Some (Finite 5) \<and>
   map_option copyCount (lifecycle reverse_props False [Measure fractional_width]) = Some (Finite 5) \<and>
   max 2 (\<lceil>containerWidth fractional_width / sequenceWidth fractional_width\<rceil> + 2) = 6"
proof -
  let ?w = "5864062014805333 / 2 ^ 44 :: real"
  have w: "sequenceWidth fractional_width = ?w" "containerWidth fractional_width = 1000"
    by (simp_all add: sequenceWidth_def containerWidth_def fractional_width_def)
  have "\<bar>?w\<bar> \<le> 2 powr of_int 9" by simp
  from to_double_bounded [OF this] nearest_width have a: "to_double ?w = Finite ?w" by simp
  have q: "(0 :: real) \<le> 1000 / ?w" "1000 / ?w \<le> 2 ^ 52" by simp_all
  have v: "d_max (Finite 2) (copiesNeeded (1000 / ?w)) = Finite 5"
    unfolding copies_value [OF q] nearest_third by simp
  have b: "map_option copyCount (updateDimensions fractional_width mounted_example) = Some (Finite 5)"
    using v by (simp add: updateDimensions_cases w)
  have c: "map_option copyCount (lifecycle reverse_props False [Measure fractional_width]) = Some (Finite 5)"
    using v
    by (simp add: lifecycle_def mount_def run_effect_def render_def hook_args_def
        updateDimensions_cases w targetVelocity_def effectiveHoverSpeed_def
        useAnimationLoop_effect_def run_cleanup_def requestAnimationFrame_def
        cancelAnimationFrame_def initial_loop_def wrap_def js_rem_def js_trunc_def
        MIN_COPIES_def reverse_props_def Let_def)
  have d: "max 2 (\<lceil>1000 / ?w\<rceil> + 2) = 6"
    by (simp add: ceiling_eq_iff)
  have a': "to_double (sequenceWidth fractional_width) = Finite (sequenceWidth fractional_width)"
    unfolding w by (rule a)
  have d': "max 2 (\<lceil>containerWidth fractional_width / sequenceWidth fractional_width\<rceil> + 2) = 6"
    unfolding w by (rule d)
  have p: "0 < sequenceWidth fractional_width" unfolding w by simp
  from a' p b c d' show ?thesis by blast
qed

text \<open>
  C5. While the sequence width is 0 nothing divides by it. A reachable state with the
  width 0 has the offset 0 and a track that is not translated (no transform assigned, or
  the pinned \<open>translate3d(0, 0, 0)\<close>), and any number of frames leaves both as they are;
  a frame callback over the width 0 returns without touching the offset or the transform;
  \<open>updateDimensions\<close> always returns, and returns the state unchanged when it measures the
  width 0. In the model a remainder or a quotient by 0 is the failure \<open>None\<close>, so no run
  of the component ever computes one.
\<close>

theorem C5_zero_width:
  "(\<exists>c. lifecycle p reduced es = Some c \<and>
      (seqWidth c = 0 \<longrightarrow>
         offsetRef (loop c) = 0 \<and>
         (track_transform (loop c) = None \<or> track_transform (loop c) = Some 0) \<and>
         (\<exists>c'. run (map Frame ts) c = Some c' \<and> offsetRef (loop c') = 0 \<and>
               track_transform (loop c') = track_transform (loop c)))) \<and>
   (arg_seqWidth a = 0 \<longrightarrow>
      (\<exists>s'. animate a t s = Some s' \<and> offsetRef s' = offsetRef s \<and>
            track_transform s' = track_transform s)) \<and>
   (\<exists>c1. updateDimensions m c0 = Some c1) \<and>
   (sequenceWidth m0 = 0 \<longrightarrow> updateDimensions m0 c0 = Some c0) \<and>
   js_rem x 0 = None \<and> js_div y 0 = None"
proof (intro conjI impI)
  from lifecycle_inv [of p reduced es] obtain c where c: "lifecycle p reduced es = Some c" "inv c"
    by blast
  have "offsetRef (loop c) = 0 \<and>
         (track_transform (loop c) = None \<or> track_transform (loop c) = Some 0) \<and>
         (\<exists>c'. run (map Frame ts) c = Some c' \<and> offsetRef (loop c') = 0 \<and>
               track_transform (loop c') = track_transform (loop c))" if z: "seqWidth c = 0"
  proof -
    from z have nz: "\<not> 0 < seqWidth c" by simp
    from c(2) nz have "offsetRef (loop c) = 0"
      "track_transform (loop c) = None \<or> track_transform (loop c) = Some 0"
      by (simp_all add: inv_def offset_ok_def)
    with frames_frozen [OF c(2) nz, of ts] show ?thesis by auto
  qed
  with c(1) show "\<exists>c. lifecycle p reduced es = Some c \<and>
      (seqWidth c = 0 \<longrightarrow>
         offsetRef (loop c) = 0 \<and>
         (track_transform (loop c) = None \<or> track_transform (loop c) = Some 0) \<and>
         (\<exists>c'. run (map Frame ts) c = Some c' \<and> offsetRef (loop c') = 0 \<and>
               track_transform (loop c') = track_transform (loop c)))"
    by blast
next
  assume "arg_seqWidth a = 0"
  then have "\<not> 0 < arg_seqWidth a" by simp
  from animate_frozen [OF this, of t s] show
    "\<exists>s'. animate a t s = Some s' \<and> offsetRef s' = offsetRef s \<and>
            track_transform s' = track_transform s"
    by simp
qed (simp_all add: updateDimensions_cases js_rem_def js_div_def)

theorem C5_zero_width_witness:
  "(\<exists>c. lifecycle reverse_props False [Frame 100, Measure empty_sequence, MouseEnter, Frame 116]
        = Some c \<and>
      seqWidth c = 0 \<and> offsetRef (loop c) = 0 \<and>
      (track_transform (loop c) = None \<or> track_transform (loop c) = Some 0) \<and>
      (\<exists>c'. run (map Frame [130, 120, 120]) c = Some c' \<and> offsetRef (loop c') = 0 \<and>
            track_transform (loop c') = track_transform (loop c))) \<and>
   arg_seqWidth (hook_args mounted_example) = 0 \<and>
   (\<exists>s'. animate (hook_args mounted_example) 116 (loop mounted_example) = Some s' \<and>
         offsetRef s' = offsetRef (loop mounted_example) \<and>
         track_transform s' = track_transform (loop mounted_example)) \<and>
   (\<exists>c1. updateDimensions wide_container mounted_example = Some c1) \<and>
   sequenceWidth empty_sequence = 0 \<and>
   updateDimensions empty_sequence mounted_example = Some mounted_example \<and>
   js_rem 5 0 = None \<and> js_div 250 0 = None"
proof -
  have a: "sequenceWidth empty_sequence = 0" "arg_seqWidth (hook_args mounted_example) = 0"
    by (simp_all add: sequenceWidth_def empty_sequence_def mounted_example_def)
  have c: "\<exists>c. lifecycle reverse_props False [Frame 100, Measure empty_sequence, MouseEnter, Frame 116]
        = Some c \<and> seqWidth c = 0"
    by (simp add: model_defs reverse_props_def empty_sequence_def Let_def)
  from C5_zero_width [where p = reverse_props and reduced = False
      and es = "[Frame 100, Measure empty_sequence, MouseEnter, Frame 116]"
      and ts = "[130, 120, 120]" and a = "hook_args mounted_example" and t = 116
      and s = "loop mounted_example" and m = wide_container and ?c0.0 = mounted_example
      and ?m0.0 = empty_sequence and x = 5 and y = 250] a c
  show ?thesis by auto
qed



text \<open>
  C2. The target of a frame is the hover speed when the pointer hovers and a hover speed
  is configured, and otherwise \<open>|speed| * sign(direction) * sign(speed)\<close>. The lemmas
  \<open>targetVelocity_sign\<close>, \<open>targetVelocity_examples\<close> and \<open>fixed_props_target\<close> show it for
  the base target and for every mount whose props never change. It fails after the
  parent removes \<open>hoverSpeed\<close> while the pointer hovers: the hover flag stays set (and
  \<open>handleMouseLeave\<close> no longer clears it), \<open>effectiveHoverSpeed\<close> is 0, and the pending
  frame eases towards 0 although no hover speed is configured and the claim's target is
  120.
\<close>

theorem C2_stale_hover_target:
  "map_option props (lifecycle hover_props False [MouseEnter, SetProps plain_props, MouseLeave])
     = Some plain_props \<and>
   map_option isHovered (lifecycle hover_props False [MouseEnter, SetProps plain_props, MouseLeave])
     = Some True \<and>
   map_option pending_targets
     (lifecycle hover_props False [MouseEnter, SetProps plain_props, MouseLeave]) = Some [0] \<and>
   hoverSpeed plain_props = None \<and>
   spec_target True plain_props = 120"
  by (simp add: model_defs hover_props_def plain_props_def pending_targets_def spec_target_def
      Let_def)




text \<open>
  C9, as amended. The effect is torn down on unmount and when one of its dependencies
  changes between two renders: the target velocity \<open>|speed| * sign(direction) * sign(speed)\<close>,
  the sequence width, the hover flag, or the effective hover speed (\<open>hoverSpeed\<close>, and 0
  when none is configured). In every reachable state of a mounted component: the unmount
  leaves no pending frame callback and no last timestamp, and no later event changes the
  state of the loop, so no frame callback runs after it; an event that changes a
  dependency discards the last timestamp (the next frame has the time step 0) and leaves
  none of the callbacks that were pending, only the one of the new activation. The
  cleanup of the resize effect removes every observer and listener the effect registered.
\<close>

theorem C9_teardown:
  "(\<exists>c. lifecycle p reduced es = Some c \<and>
      (mounted c \<longrightarrow>
         (\<exists>c'. step Unmount c = Some c' \<and> raf_queue (loop c') = [] \<and>
               lastTimestampRef (loop c') = None \<and>
               (\<exists>c''. run es' c' = Some c'' \<and> loop c'' = loop c')) \<and>
         (e = MouseEnter \<or> e = MouseLeave \<or> e = SetProps p' \<or> e = Measure m \<longrightarrow>
            (\<exists>c'. step e c = Some c' \<and>
               (deps_changed c c' \<longrightarrow>
                  lastTimestampRef (loop c') = None \<and>
                  deltaTime (lastTimestampRef (loop c')) t = 0 \<and>
                  set (raf_queue (loop c)) \<inter> set (raf_queue (loop c')) = {} \<and>
                  raf_queue (loop c') =
                    (if reducedMotion c then [] else [(raf_next (loop c), hook_args c')])))))) \<and>
   ((\<forall>ob \<in> fst ` set (resize_observers s). ob < next_id s) \<and>
    (\<forall>h \<in> set (resize_listeners s). h < next_id s) \<and>
    useResizeObserver_effect w elements s = (s', cl) \<longrightarrow>
      resize_observers (run_observer_cleanup cl s') = resize_observers s \<and>
      resize_listeners (run_observer_cleanup cl s') = resize_listeners s)"
proof (intro conjI)
  from lifecycle_inv [of p reduced es] obtain c where c: "lifecycle p reduced es = Some c" "inv c"
    by blast
  have "(\<exists>c'. step Unmount c = Some c' \<and> raf_queue (loop c') = [] \<and>
               lastTimestampRef (loop c') = None \<and>
               (\<exists>c''. run es' c' = Some c'' \<and> loop c'' = loop c')) \<and>
         (e = MouseEnter \<or> e = MouseLeave \<or> e = SetProps p' \<or> e = Measure m \<longrightarrow>
            (\<exists>c'. step e c = Some c' \<and>
               (deps_changed c c' \<longrightarrow>
                  lastTimestampRef (loop c') = None \<and>
                  deltaTime (lastTimestampRef (loop c')) t = 0 \<and>
                  set (raf_queue (loop c)) \<inter> set (raf_queue (loop c')) = {} \<and>
                  raf_queue (loop c') =
                    (if reducedMotion c then [] else [(raf_next (loop c), hook_args c')]))))"
    if m: "mounted c"
  proof (intro conjI impI)
    from unmount_teardown [OF c(2) m] show
      "\<exists>c'. step Unmount c = Some c' \<and> raf_queue (loop c') = [] \<and>
               lastTimestampRef (loop c') = None \<and>
               (\<exists>c''. run es' c' = Some c'' \<and> loop c'' = loop c')" .
  next
    assume "e = MouseEnter \<or> e = MouseLeave \<or> e = SetProps p' \<or> e = Measure m"
    from reactivation_teardown [OF c(2) m this, of t] show
      "\<exists>c'. step e c = Some c' \<and>
               (deps_changed c c' \<longrightarrow>
                  lastTimestampRef (loop c') = None \<and>
                  deltaTime (lastTimestampRef (loop c')) t = 0 \<and>
                  set (raf_queue (loop c)) \<inter> set (raf_queue (loop c')) = {} \<and>
                  raf_queue (loop c') =
                    (if reducedMotion c then [] else [(raf_next (loop c), hook_args c')]))"
      by blast
  qed
  with c(1) show "\<exists>c. lifecycle p reduced es = Some c \<and>
      (mounted c \<longrightarrow>
         (\<exists>c'. step Unmount c = Some c' \<and> raf_queue (loop c') = [] \<and>
               lastTimestampRef (loop c') = None \<and>
               (\<exists>c''. run es' c' = Some c'' \<and> loop c'' = loop c')) \<and>
         (e = MouseEnter \<or> e = MouseLeave \<or> e = SetProps p' \<or> e = Measure m \<longrightarrow>
            (\<exists>c'. step e c = Some c' \<and>
               (deps_changed c c' \<longrightarrow>
                  lastTimestampRef (loop c') = None \<and>
                  deltaTime (lastTimestampRef (loop c')) t = 0 \<and>
                  set (raf_queue (loop c)) \<inter> set (raf_queue (loop c')) = {} \<and>
                  raf_queue (loop c') =
                    (if reducedMotion c then [] else [(raf_next (loop c), hook_args c')])))))"
    by blast
next
  show "(\<forall>ob \<in> fst ` set (resize_observers s). ob < next_id s) \<and>
    (\<forall>h \<in> set (resize_listeners s). h < next_id s) \<and>
    useResizeObserver_effect w elements s = (s', cl) \<longrightarrow>
      resize_observers (run_observer_cleanup cl s') = resize_observers s \<and>
      resize_listeners (run_observer_cleanup cl s') = resize_listeners s"
    using observer_teardown [of s w elements s' cl] by blast
qed

theorem C9_teardown_witness:
  "(\<exists>c. lifecycle hover_props False [Measure wide_container, Frame 100] = Some c \<and>
      mounted c \<and>
      (\<exists>c'. step Unmount c = Some c' \<and> raf_queue (loop c') = [] \<and>
            lastTimestampRef (loop c') = None \<and>
            (\<exists>c''. run [Frame 116, MouseEnter, Frame 133] c' = Some c'' \<and> loop c'' = loop c')) \<and>
      (\<exists>c'. step MouseEnter c = Some c' \<and> deps_changed c c' \<and>
            lastTimestampRef (loop c') = None \<and>
            deltaTime (lastTimestampRef (loop c')) 116 = 0 \<and>
            set (raf_queue (loop c)) \<inter> set (raf_queue (loop c')) = {} \<and>
            raf_queue (loop c') =
              (if reducedMotion c then [] else [(raf_next (loop c), hook_args c')]))) \<and>
   useResizeObserver_effect WindowWithResizeObserver [Some 7, None, Some 9] initial_observers
     = (observing_example, Disconnect [0, 1]) \<and>
   resize_observers (run_observer_cleanup (Disconnect [0, 1]) observing_example) = [] \<and>
   resize_listeners (run_observer_cleanup (Disconnect [0, 1]) observing_example) = []"
proof -
  have a: "\<exists>c. lifecycle hover_props False [Measure wide_container, Frame 100] = Some c \<and>
      mounted c \<and> (\<exists>c'. step MouseEnter c = Some c' \<and> isHovered c' \<noteq> isHovered c)"
    by (simp add: model_defs hover_props_def wide_container_def Let_def)
  have b: "useResizeObserver_effect WindowWithResizeObserver [Some 7, None, Some 9] initial_observers
     = (observing_example, Disconnect [0, 1])"
    by (simp add: useResizeObserver_effect_def initial_observers_def observing_example_def Let_def)
  have c: "\<forall>ob \<in> fst ` set (resize_observers initial_observers). ob < next_id initial_observers"
    "\<forall>h \<in> set (resize_listeners initial_observers). h < next_id initial_observers"
    "resize_observers initial_observers = []" "resize_listeners initial_observers = []"
    by (simp_all add: initial_observers_def)
  from a obtain c c1 where l: "lifecycle hover_props False [Measure wide_container, Frame 100] = Some c"
    and m: "mounted c" and s1: "step MouseEnter c = Some c1" and h: "isHovered c1 \<noteq> isHovered c"
    by blast
  from h have d: "deps_changed c c1" by (simp add: deps_changed_def)
  note t = C9_teardown [where p = hover_props and reduced = False
      and es = "[Measure wide_container, Frame 100]" and es' = "[Frame 116, MouseEnter, Frame 133]"
      and e = MouseEnter and t = 116 and s = initial_observers and w = WindowWithResizeObserver
      and elements = "[Some 7, None, Some 9]" and s' = observing_example
      and cl = "Disconnect [0, 1]"]
  from t l m have u: "\<exists>c'. step Unmount c = Some c' \<and> raf_queue (loop c') = [] \<and>
            lastTimestampRef (loop c') = None \<and>
            (\<exists>c''. run [Frame 116, MouseEnter, Frame 133] c' = Some c'' \<and> loop c'' = loop c')"
    by simp
  from t l m have "\<exists>c'. step MouseEnter c = Some c' \<and>
               (deps_changed c c' \<longrightarrow>
                  lastTimestampRef (loop c') = None \<and>
                  deltaTime (lastTimestampRef (loop c')) 116 = 0 \<and>
                  set (raf_queue (loop c)) \<inter> set (raf_queue (loop c')) = {} \<and>
                  raf_queue (loop c') =
                    (if reducedMotion c then [] else [(raf_next (loop c), hook_args c')]))"
    by simp
  then obtain c' where c': "step MouseEnter c = Some c'"
    "deps_changed c c' \<longrightarrow>
                  lastTimestampRef (loop c') = None \<and>
                  deltaTime (lastTimestampRef (loop c')) 116 = 0 \<and>
                  set (raf_queue (loop c)) \<inter> set (raf_queue (loop c')) = {} \<and>
                  raf_queue (loop c') =
                    (if reducedMotion c then [] else [(raf_next (loop c), hook_args c')])"
    by blast
  from c'(1) s1 have "c' = c1" by (simp del: step.simps)
  with c' s1 d have r: "\<exists>c'. step MouseEnter c = Some c' \<and> deps_changed c c' \<and>
            lastTimestampRef (loop c') = None \<and>
            deltaTime (lastTimestampRef (loop c')) 116 = 0 \<and>
            set (raf_queue (loop c)) \<inter> set (raf_queue (loop c')) = {} \<and>
            raf_queue (loop c') =
              (if reducedMotion c then [] else [(raf_next (loop c), hook_args c')])"
    by blast
  from t b c have o: "resize_observers (run_observer_cleanup (Disconnect [0, 1]) observing_example) = []"
    "resize_listeners (run_observer_cleanup (Disconnect [0, 1]) observing_example) = []"
    by simp_all
  from l m u r have "\<exists>c. lifecycle hover_props False [Measure wide_container, Frame 100] = Some c \<and>
      mounted c \<and>
      (\<exists>c'. step Unmount c = Some c' \<and> raf_queue (loop c') = [] \<and>
            lastTimestampRef (loop c') = None \<and>
            (\<exists>c''. run [Frame 116, MouseEnter, Frame 133] c' = Some c'' \<and> loop c'' = loop c')) \<and>
      (\<exists>c'. step MouseEnter c = Some c' \<and> deps_changed c c' \<and>
            lastTimestampRef (loop c') = None \<and>
            deltaTime (lastTimestampRef (loop c')) 116 = 0 \<and>
            set (raf_queue (loop c)) \<inter> set (raf_queue (loop c')) = {} \<and>
            raf_queue (loop c') =
              (if reducedMotion c then [] else [(raf_next (loop c), hook_args c')]))"
    by blast
  with b o show ?thesis by blast
qed

text \<open>
  C9 as stated fails: a change of \<open>hoverSpeed\<close> from none to 0 (speed and direction as
  before) is a change of the hover speed, yet the effective hover speed stays 0, the
  effect does not run again, the pending callback stays and the last timestamp is kept.
\<close>

theorem C9_hover_speed_configured:
  "map_option (lastTimestampRef \<circ> loop) (lifecycle plain_props False [Frame 100, SetProps hover_props])
     = Some (Some 100) \<and>
   map_option (raf_queue \<circ> loop) (lifecycle plain_props False [Frame 100, SetProps hover_props])
     = map_option (raf_queue \<circ> loop) (lifecycle plain_props False [Frame 100]) \<and>
   map_option scheduled_frames (lifecycle plain_props False [Frame 100]) = Some 1 \<and>
   hoverSpeed plain_props = None \<and> hoverSpeed hover_props = Some 0 \<and>
   speed plain_props = speed hover_props \<and> direction plain_props = direction hover_props"
  by (simp add: model_defs plain_props_def hover_props_def scheduled_frames_def Let_def)




text \<open>
  C6. One run of the effect calls \<open>onLoad\<close> at most once, and exactly once when every
  image that was not complete at its start has settled, by a \<open>load\<close> or an \<open>error\<close> event
  alike (lemmas \<open>effect_once\<close>, \<open>dispatch_all_once\<close>, \<open>settled_once\<close>, \<open>all_failed\<close>). But
  the effect does not run once for a sequence: the array in its dependency list is a new
  one in every render, so every render runs it again, and a run that finds every image
  complete calls \<open>onLoad\<close> at once. Two images that both fail: the run after the mount
  registers its listeners and calls \<open>onLoad\<close> at the second \<open>error\<close> event; the next
  render (the recomputation has changed the layout state) runs the effect again, which
  finds both images complete, as a broken image is, and calls \<open>onLoad\<close> a second time.
  With the array of the first render the second render would have left the effect alone.
\<close>

theorem C6_rerun_fires_again:
  "onLoad_calls (loader (deliver [ErrorEvent 0, ErrorEvent 1]
      (useImageLoader 0 (Some [False, False]) initial_hook))) = 1 \<and>
   onLoad_calls (loader (useImageLoader 1 (Some [True, True])
      (deliver [ErrorEvent 0, ErrorEvent 1]
         (useImageLoader 0 (Some [False, False]) initial_hook)))) = 2 \<and>
   onLoad_calls (loader (useImageLoader 0 (Some [True, True])
      (deliver [ErrorEvent 0, ErrorEvent 1]
         (useImageLoader 0 (Some [False, False]) initial_hook)))) = 1 \<and>
   onLoad_calls (loader (useImageLoader 1 (Some [])
      (useImageLoader 0 (Some []) initial_hook))) = 2"
  by (simp add: useImageLoader_def useImageLoader_effect_def useImageLoader_cleanup_def
      deliver_def initial_hook_def initial_loader_def handleImageLoad_def onLoad_def Let_def)

text \<open>
  C8, as amended. Without a custom \<open>renderItem\<close>, an item with a non-empty \<open>href\<close> is
  rendered as a list entry whose content is wrapped in a link to it with target
  \<open>_blank\<close> and rel \<open>noreferrer noopener\<close>; the content is what the entry of an item
  without link holds: the \<open>span\<close> around the node of an item that has one, and else the
  \<open>img\<close> with the item's \<open>src\<close>, \<open>srcSet\<close>, \<open>sizes\<close>, \<open>width\<close>, \<open>height\<close>, \<open>alt\<close> (or the empty
  string) and \<open>title\<close>. The link's accessible name is, for an item with a node, its
  \<open>ariaLabel\<close> and else its title; for an image item, its \<open>alt\<close> and else its title; and
  \<open>logo link\<close> when neither is there or the one found is empty. With a custom
  \<open>renderItem\<close> the list entry holds what the function returns, and no link.
\<close>

theorem C8_link_wrapper:
  "(href i = Some h \<and> h \<noteq> [] \<longrightarrow>
      renderLogoItemInternal None (Some i) index =
        Li index (Anchor h (accessible_name i) ''_blank'' ''noreferrer noopener''
                    (content (Some i)))) \<and>
   (href i = None \<or> href i = Some [] \<longrightarrow>
      renderLogoItemInternal None (Some i) index = Li index (content (Some i))) \<and>
   (node i = Some n \<longrightarrow>
      content (Some i) = Span (truthy (href i) \<and> \<not> truthy (ariaLabel i)) n) \<and>
   (node i = None \<longrightarrow>
      content (Some i) =
        Img (src i) (srcSet i) (sizes i) (width i) (height i)
          (case alt i of Some a \<Rightarrow> a | None \<Rightarrow> []) (title i)) \<and>
   (node i \<noteq> None \<and> ariaLabel i = Some l \<and> l \<noteq> [] \<longrightarrow> accessible_name i = l) \<and>
   (node i \<noteq> None \<and> ariaLabel i = None \<and> title i = Some t \<and> t \<noteq> [] \<longrightarrow>
      accessible_name i = t) \<and>
   (node i \<noteq> None \<and> ariaLabel i = None \<and> title i = None \<longrightarrow>
      accessible_name i = ''logo link'') \<and>
   (node i = None \<and> alt i = Some l \<and> l \<noteq> [] \<longrightarrow> accessible_name i = l) \<and>
   (node i = None \<and> alt i = None \<and> title i = Some t \<and> t \<noteq> [] \<longrightarrow> accessible_name i = t) \<and>
   (node i = None \<and> alt i = None \<and> title i = None \<longrightarrow> accessible_name i = ''logo link'') \<and>
   (node i \<noteq> None \<and> (ariaLabel i = Some [] \<or> ariaLabel i = None \<and> title i = Some []) \<longrightarrow>
      accessible_name i = ''logo link'') \<and>
   (node i = None \<and> (alt i = Some [] \<or> alt i = None \<and> title i = Some []) \<longrightarrow>
      accessible_name i = ''logo link'') \<and>
   renderLogoItemInternal (Some f) item index = Li index (Rendered (f item index))"
  by (auto simp: renderLogoItemInternal_def content_def itemAriaLabel_def accessible_name_def
      chain_def nullish_def Let_def split: option.splits)

theorem C8_link_wrapper_witness:
  "href acme_node = Some ''https://acme.example'' \<and> ''https://acme.example'' \<noteq> [] \<and>
   renderLogoItemInternal None (Some acme_node) 3 =
     Li 3 (Anchor ''https://acme.example'' ''Visit Acme'' ''_blank'' ''noreferrer noopener''
            (Span False ''AcmeIcon'')) \<and>
   node acme_node = Some ''AcmeIcon'' \<and> content (Some acme_node) = Span False ''AcmeIcon'' \<and>
   ariaLabel acme_node = Some ''Visit Acme'' \<and> ''Visit Acme'' \<noteq> [] \<and>
   accessible_name acme_node = ''Visit Acme'' \<and>
   href acme_image = Some ''https://acme.example'' \<and>
   renderLogoItemInternal None (Some acme_image) 4 =
     Li 4 (Anchor ''https://acme.example'' ''Acme Corp'' ''_blank'' ''noreferrer noopener''
            (Img (Some ''acme.png'') None None None None [] (Some ''Acme Corp''))) \<and>
   node acme_image = None \<and> alt acme_image = None \<and> title acme_image = Some ''Acme Corp'' \<and>
   ''Acme Corp'' \<noteq> [] \<and> accessible_name acme_image = ''Acme Corp'' \<and>
   href plain_image = None \<and>
   renderLogoItemInternal None (Some plain_image) 5 =
     Li 5 (Img (Some ''plain.png'') None None (Some 120) (Some 28) ''Plain'' None) \<and>
   node unnamed_node \<noteq> None \<and> ariaLabel unnamed_node = Some [] \<and>
   accessible_name unnamed_node = ''logo link'' \<and>
   node unnamed_image = None \<and> alt unnamed_image = None \<and> title unnamed_image = Some [] \<and>
   accessible_name unnamed_image = ''logo link'' \<and>
   node titled_node \<noteq> None \<and> ariaLabel titled_node = None \<and>
   title titled_node = Some ''Acme Corp'' \<and> accessible_name titled_node = ''Acme Corp'' \<and>
   node bare_node \<noteq> None \<and> ariaLabel bare_node = None \<and> title bare_node = None \<and>
   accessible_name bare_node = ''logo link'' \<and>
   alt plain_image = Some ''Plain'' \<and> ''Plain'' \<noteq> [] \<and> accessible_name plain_image = ''Plain'' \<and>
   node bare_image = None \<and> alt bare_image = None \<and> title bare_image = None \<and>
   accessible_name bare_image = ''logo link''"
proof -
  have a: "href acme_node = Some ''https://acme.example''" "''https://acme.example'' \<noteq> []"
    "node acme_node = Some ''AcmeIcon''" "ariaLabel acme_node = Some ''Visit Acme''"
    "''Visit Acme'' \<noteq> []" "node acme_node \<noteq> None"
    by (simp_all add: acme_node_def)
  have b: "href acme_image = Some ''https://acme.example''" "node acme_image = None"
    "alt acme_image = None" "title acme_image = Some ''Acme Corp''" "''Acme Corp'' \<noteq> []"
    "src acme_image = Some ''acme.png''" "srcSet acme_image = None" "sizes acme_image = None"
    "width acme_image = None" "height acme_image = None"
    by (simp_all add: acme_image_def)
  have c: "href plain_image = None" "node plain_image = None" "alt plain_image = Some ''Plain''"
    "title plain_image = None" "src plain_image = Some ''plain.png''" "srcSet plain_image = None"
    "sizes plain_image = None" "width plain_image = Some 120" "height plain_image = Some 28"
    by (simp_all add: plain_image_def)
  note t1 = C8_link_wrapper [where i = acme_node and h = "''https://acme.example''" and index = 3
      and l = "''Visit Acme''" and n = "''AcmeIcon''"]
  note t2 = C8_link_wrapper [where i = acme_image and h = "''https://acme.example''" and index = 4
      and t = "''Acme Corp''"]
  note t3 = C8_link_wrapper [where i = plain_image and index = 5]
  from t1 a have d: "accessible_name acme_node = ''Visit Acme''"
    "content (Some acme_node) = Span False ''AcmeIcon''"
    by (simp_all add: truthy_def)
  from t1 a d have e: "renderLogoItemInternal None (Some acme_node) 3 =
     Li 3 (Anchor ''https://acme.example'' ''Visit Acme'' ''_blank'' ''noreferrer noopener''
            (Span False ''AcmeIcon''))"
    by simp
  from t2 b have f: "accessible_name acme_image = ''Acme Corp''"
    "content (Some acme_image) = Img (Some ''acme.png'') None None None None [] (Some ''Acme Corp'')"
    by simp_all
  from t2 b f have g: "renderLogoItemInternal None (Some acme_image) 4 =
     Li 4 (Anchor ''https://acme.example'' ''Acme Corp'' ''_blank'' ''noreferrer noopener''
            (Img (Some ''acme.png'') None None None None [] (Some ''Acme Corp'')))"
    by simp
  from t3 c have h: "renderLogoItemInternal None (Some plain_image) 5 =
     Li 5 (Img (Some ''plain.png'') None None (Some 120) (Some 28) ''Plain'' None)"
    by simp
  have u: "node unnamed_node \<noteq> None" "ariaLabel unnamed_node = Some []"
    "node unnamed_image = None" "alt unnamed_image = None" "title unnamed_image = Some []"
    by (simp_all add: unnamed_node_def unnamed_image_def)
  from C8_link_wrapper [where i = unnamed_node] u
  have v: "accessible_name unnamed_node = ''logo link''" by blast
  from C8_link_wrapper [where i = unnamed_image] u
  have w: "accessible_name unnamed_image = ''logo link''" by blast
  have x: "node titled_node \<noteq> None" "ariaLabel titled_node = None"
    "title titled_node = Some ''Acme Corp''" "node bare_node \<noteq> None"
    "ariaLabel bare_node = None" "title bare_node = None" "''Plain'' \<noteq> []"
    "node bare_image = None" "alt bare_image = None" "title bare_image = None"
    by (simp_all add: titled_node_def bare_node_def bare_image_def)
  from C8_link_wrapper [where i = titled_node and t = "''Acme Corp''"] x b(5)
  have y1: "accessible_name titled_node = ''Acme Corp''" by blast
  from C8_link_wrapper [where i = bare_node] x
  have y2: "accessible_name bare_node = ''logo link''" by blast
  from C8_link_wrapper [where i = plain_image and l = "''Plain''"] c x(7)
  have y3: "accessible_name plain_image = ''Plain''" by blast
  from C8_link_wrapper [where i = bare_image] x
  have y4: "accessible_name bare_image = ''logo link''" by blast
  from a b c d e f g h u v w x y1 y2 y3 y4 show ?thesis by simp
qed

text \<open>
  C8 as stated fails: an image item's \<open>ariaLabel\<close> is not read, the link is named by the
  title; and under a custom \<open>renderItem\<close> an item with an \<open>href\<close> gets no link.
\<close>

theorem C8_image_item_label:
  "ariaLabel acme_image = Some ''Visit Acme'' \<and>
   renderLogoItemInternal None (Some acme_image) 0 =
     Li 0 (Anchor ''https://acme.example'' ''Acme Corp'' ''_blank'' ''noreferrer noopener''
       (Img (Some ''acme.png'') None None None None [] (Some ''Acme Corp''))) \<and>
   renderLogoItemInternal (Some custom_render) (Some acme_node) 0 = Li 0 (Rendered ''custom'')"
  by (simp add: renderLogoItemInternal_def content_def itemAriaLabel_def acme_image_def
      acme_node_def custom_render_def chain_def nullish_def Let_def)

end
